theory Spec2Isabelle
  imports Main "HOL-Library.Multiset"
begin

section \<open>The data model\<close>

text \<open>
  The reader is a React front end. Its types are declared in \<open>types/rss.ts\<close>; the
  interfaces become records. Field names are the source's, with a prefix where two
  interfaces share a name (\<open>name\<close>, \<open>category\<close>, \<open>description\<close>) or where the name is
  a constant of HOL (\<open>id\<close>).

  Strings are byte strings, the UTF-8 encoding of the text: the characters the code
  inspects (\<open><\<close>, \<open>>\<close>, the Latin letters) are ASCII, white space outside ASCII is
  recognised by its encoding, and the Chinese literals of the source are written out as
  their bytes. A \<open>Date\<close> is the number \<open>getTime()\<close> returns, \<open>None\<close> for an invalid
  date (\<open>NaN\<close>).
\<close>

type_synonym js_date = "int option"

record RSSCategory =
  cat_id :: string
  cat_name :: string
  cat_color :: string
  cat_count :: nat

record RSSItem =
  item_id :: string
  title :: string
  description :: string
  link :: string
  pubDate :: js_date
  category :: RSSCategory
  source :: string
  author :: string
  feedName :: string

record RSSFeedConfig =
  cfg_name :: string
  cfg_url :: string
  cfg_category :: string
  cfg_description :: string
  cfg_title :: "string option"

text \<open>
  Plain objects used as dictionaries (\<open>feedsByCategory\<close>, the accumulator of
  \<open>groupedFeeds\<close>) are maps from their own keys to the stored values. Such an object
  also inherits the members of \<open>Object.prototype\<close>. Reading \<open>obj[k]\<close> gives the stored
  value when \<open>k\<close> is an own key; otherwise the inherited member when \<open>k\<close> names one,
  and \<open>undefined\<close> when it names none. The inherited members are functions, and for
  \<open>__proto__\<close> the prototype object itself: truthy values that are no arrays, have no
  \<open>push\<close> and cannot be iterated.
\<close>

type_synonym FeedsByCategory = "string \<rightharpoonup> RSSItem list"

type_synonym GroupedFeeds = "string \<rightharpoonup> RSSItem list"

definition object_prototype_names :: "string list" where
  "object_prototype_names =
     [''constructor'', ''__defineGetter__'', ''__defineSetter__'', ''hasOwnProperty'',
      ''__lookupGetter__'', ''__lookupSetter__'', ''isPrototypeOf'', ''propertyIsEnumerable'',
      ''toString'', ''valueOf'', ''__proto__'', ''toLocaleString'']"

datatype 'a js_member = Own 'a | Inherited | Missing

definition js_read :: "(string \<rightharpoonup> 'a) \<Rightarrow> string \<Rightarrow> 'a js_member" where
  "js_read obj k =
     (case obj k of
        Some v \<Rightarrow> Own v
      | None \<Rightarrow> if k \<in> set object_prototype_names then Inherited else Missing)"

text \<open>The exception a failing member access throws.\<close>

datatype js_error = TypeError

text \<open>Items and categories for the concrete instances below.\<close>

definition sample_category :: "string \<Rightarrow> RSSCategory" where
  "sample_category c = \<lparr>cat_id = c, cat_name = c, cat_color = ''#3B82F6'', cat_count = 0\<rparr>"

definition sample_item :: "string \<Rightarrow> string \<Rightarrow> string \<Rightarrow> string \<Rightarrow> RSSItem" where
  "sample_item t l c n =
     \<lparr>item_id = n @ ''-0-0'', title = t, description = '''', link = l, pubDate = Some 0,
      category = sample_category c, source = n, author = n, feedName = n\<rparr>"

definition sample_config :: "string \<Rightarrow> string \<Rightarrow> RSSFeedConfig" where
  "sample_config n c =
     \<lparr>cfg_name = n, cfg_url = ''https://example.org/'' @ n, cfg_category = c,
      cfg_description = '''', cfg_title = Some n\<rparr>"

section \<open>Strings\<close>

text \<open>
  The white space of the ASCII range: tab, line feed, vertical tab, form feed, carriage
  return and space. \<open>trim\<close> is modelled on it.
\<close>

definition js_space :: "char \<Rightarrow> bool" where
  "js_space c = (let n = (of_char c :: nat) in (9 \<le> n \<and> n \<le> 13) \<or> n = 32)"

text \<open>\<open>String.prototype.trim\<close>: white space off both ends.\<close>

definition trim :: "string \<Rightarrow> string" where
  "trim s = rev (dropWhile js_space (rev (dropWhile js_space s)))"

text \<open>
  \<open>html.replace(/<[^>]*>/g, '')\<close>. The scan goes from left to right. At a \<open><\<close> the
  pattern matches when a \<open>>\<close> follows somewhere, and the match ends at the first one
  (\<open>[^>]*\<close> cannot pass it); the match is dropped and the scan goes on behind it. Any
  other character is kept.
\<close>

function replace_tags :: "string \<Rightarrow> string" where
  "replace_tags [] = []"
| "replace_tags (c # cs) =
     (if c = CHR ''<'' \<and> CHR ''>'' \<in> set cs
      then replace_tags (tl (dropWhile (\<lambda>d. d \<noteq> CHR ''>'') cs))
      else c # replace_tags cs)"
  by pat_completeness auto
termination
proof (relation "measure length")
  show "wf (measure length)" by simp
next
  fix c :: char and cs :: string
  have "length (dropWhile (\<lambda>d. d \<noteq> CHR ''>'') cs) \<le> length cs"
    by (rule length_dropWhile_le)
  then show "(tl (dropWhile (\<lambda>d. d \<noteq> CHR ''>'') cs), c # cs) \<in> measure length" by simp
next
  fix c :: char and cs :: string
  show "(cs, c # cs) \<in> measure length" by simp
qed

text \<open>
  \<open>utils.stripHtml\<close>. The argument is \<open>None\<close> for \<open>null\<close> and \<open>undefined\<close>; these and
  the empty string are falsy, and the result is the empty string.
\<close>

definition stripHtml :: "string option \<Rightarrow> string" where
  "stripHtml html = (case html of None \<Rightarrow> [] | Some h \<Rightarrow> if h = [] then [] else trim (replace_tags h))"

text \<open>A complete tag: a \<open><\<close> with a \<open>>\<close> somewhere behind it.\<close>

fun tagged :: "string \<Rightarrow> bool" where
  "tagged [] = False"
| "tagged (c # cs) = ((c = CHR ''<'' \<and> CHR ''>'' \<in> set cs) \<or> tagged cs)"

text \<open>
  \<open>toLowerCase\<close>. On a string of ASCII characters it maps the letters \<open>A\<close> to \<open>Z\<close> to
  \<open>a\<close> to \<open>z\<close> and keeps every other character. For a string with a character outside
  ASCII the result is given by the case tables of Unicode, which are not part of the
  program: it is the parameter \<open>unicodeLower\<close>.
\<close>

definition lower_char :: "char \<Rightarrow> char" where
  "lower_char c =
     (case map_of (zip ''ABCDEFGHIJKLMNOPQRSTUVWXYZ'' ''abcdefghijklmnopqrstuvwxyz'') c of
        Some l \<Rightarrow> l
      | None \<Rightarrow> c)"

definition ascii :: "string \<Rightarrow> bool" where
  "ascii s = list_all (\<lambda>c. (of_char c :: nat) < 128) s"

definition toLowerCase :: "(string \<Rightarrow> string) \<Rightarrow> string \<Rightarrow> string" where
  "toLowerCase unicodeLower s = (if ascii s then map lower_char s else unicodeLower s)"

text \<open>
  The characters \<open>\s\<close> matches, each as its encoding: tab, line feed, vertical tab, form
  feed, carriage return, space, U+00A0, U+1680, U+2000 to U+200A, U+2028, U+2029, U+202F,
  U+205F, U+3000 and U+FEFF. \<open>space_at s\<close> is the white space character \<open>s\<close> starts with.
  No encoding in the list begins with a byte that can continue a character, so a match
  always starts at the start of a character.
\<close>

definition white_space :: "string list" where
  "white_space =
     [[CHR 0x09], [CHR 0x0A], [CHR 0x0B], [CHR 0x0C], [CHR 0x0D], [CHR 0x20],
      [CHR 0xC2, CHR 0xA0],
      [CHR 0xE1, CHR 0x9A, CHR 0x80],
      [CHR 0xE2, CHR 0x80, CHR 0x80], [CHR 0xE2, CHR 0x80, CHR 0x81], [CHR 0xE2, CHR 0x80, CHR 0x82],
      [CHR 0xE2, CHR 0x80, CHR 0x83], [CHR 0xE2, CHR 0x80, CHR 0x84], [CHR 0xE2, CHR 0x80, CHR 0x85],
      [CHR 0xE2, CHR 0x80, CHR 0x86], [CHR 0xE2, CHR 0x80, CHR 0x87], [CHR 0xE2, CHR 0x80, CHR 0x88],
      [CHR 0xE2, CHR 0x80, CHR 0x89], [CHR 0xE2, CHR 0x80, CHR 0x8A],
      [CHR 0xE2, CHR 0x80, CHR 0xA8], [CHR 0xE2, CHR 0x80, CHR 0xA9], [CHR 0xE2, CHR 0x80, CHR 0xAF],
      [CHR 0xE2, CHR 0x81, CHR 0x9F],
      [CHR 0xE3, CHR 0x80, CHR 0x80],
      [CHR 0xEF, CHR 0xBB, CHR 0xBF]]"

definition space_at :: "string \<Rightarrow> string option" where
  "space_at s = find (\<lambda>w. take (length w) s = w) white_space"

text \<open>
  \<open>replace(/\s+/g, '-')\<close>: every maximal run of white space becomes one hyphen. The scan
  goes from left to right; \<open>in_run\<close> tells that the character before was white space, for
  which the hyphen is already written.
\<close>

function replace_run :: "bool \<Rightarrow> string \<Rightarrow> string" where
  "replace_run in_run [] = []"
| "replace_run in_run (c # cs) =
     (case space_at (c # cs) of
        Some w \<Rightarrow> (if in_run then [] else [CHR ''-'']) @ replace_run True (drop (length w) (c # cs))
      | None \<Rightarrow> c # replace_run False cs)"
  by pat_completeness auto
termination
proof (relation "measure (\<lambda>(in_run, s). length s)")
  show "wf (measure (\<lambda>(in_run, s). length s))" by simp
next
  fix in_run :: bool and c :: char and cs w :: string
  assume "space_at (c # cs) = Some w"
  then have "w \<in> set white_space" by (auto simp: space_at_def find_Some_iff)
  then have "w \<noteq> []" by (auto simp: white_space_def)
  then show "((True, drop (length w) (c # cs)), (in_run, c # cs)) \<in> measure (\<lambda>(in_run, s). length s)"
    by (cases w) simp_all
next
  fix in_run :: bool and c :: char and cs :: string
  show "((False, cs), (in_run, c # cs)) \<in> measure (\<lambda>(in_run, s). length s)" by simp
qed

definition replace_spaces :: "string \<Rightarrow> string" where
  "replace_spaces s = replace_run False s"

text \<open>The id of a category, as both \<open>loadCategoriesAndConfig\<close> and the filter of
  \<open>loadFeedsForCategory\<close> compute it from the raw category name.\<close>

definition category_id :: "(string \<Rightarrow> string) \<Rightarrow> string \<Rightarrow> string" where
  "category_id unicodeLower raw = replace_spaces (toLowerCase unicodeLower raw)"

text \<open>The concrete instances below use ASCII names, for which the parameter is not
  consulted; there it is the identity.\<close>

definition ascii_names :: "string \<Rightarrow> string" where
  "ascii_names s = s"

section \<open>Categories from the configuration: \<open>loadCategoriesAndConfig\<close>\<close>

text \<open>
  The categories are collected in a \<open>Map\<close> keyed by the raw category name, in insertion
  order: an association list. \<open>App.tsx\<close> counts the colours with \<open>colorIndex\<close>, which
  advances with every new category; the hook \<open>useRSSData\<close> takes the index of the feed
  in \<open>config.feeds\<close> instead.
\<close>

definition categoryColors :: "string list" where
  "categoryColors =
     [''#3B82F6'', ''#10B981'', ''#F59E0B'', ''#EF4444'',
      ''#8B5CF6'', ''#06B6D4'', ''#84CC16'', ''#F97316'',
      ''#EC4899'', ''#6366F1'', ''#14B8A6'', ''#F43F5E'']"

definition new_category :: "(string \<Rightarrow> string) \<Rightarrow> string \<Rightarrow> nat \<Rightarrow> RSSCategory" where
  "new_category unicodeLower raw colorIndex =
     \<lparr>cat_id = category_id unicodeLower raw, cat_name = raw,
      cat_color = categoryColors ! (colorIndex mod length categoryColors), cat_count = 0\<rparr>"

fun categories_loop ::
  "(string \<Rightarrow> string) \<Rightarrow> (string \<times> RSSCategory) list \<Rightarrow> nat \<Rightarrow> RSSFeedConfig list
     \<Rightarrow> (string \<times> RSSCategory) list" where
  "categories_loop unicodeLower categoryMap colorIndex [] = categoryMap"
| "categories_loop unicodeLower categoryMap colorIndex (feedConfig # rest) =
     (if map_of categoryMap (cfg_category feedConfig) = None
      then categories_loop unicodeLower
             (categoryMap @ [(cfg_category feedConfig,
                              new_category unicodeLower (cfg_category feedConfig) colorIndex)])
             (colorIndex + 1) rest
      else categories_loop unicodeLower categoryMap colorIndex rest)"

fun categories_loop_indexed ::
  "(string \<Rightarrow> string) \<Rightarrow> (string \<times> RSSCategory) list \<Rightarrow> nat \<Rightarrow> RSSFeedConfig list
     \<Rightarrow> (string \<times> RSSCategory) list" where
  "categories_loop_indexed unicodeLower categoryMap index [] = categoryMap"
| "categories_loop_indexed unicodeLower categoryMap index (feedConfig # rest) =
     (if map_of categoryMap (cfg_category feedConfig) = None
      then categories_loop_indexed unicodeLower
             (categoryMap @ [(cfg_category feedConfig,
                              new_category unicodeLower (cfg_category feedConfig) index)])
             (index + 1) rest
      else categories_loop_indexed unicodeLower categoryMap (index + 1) rest)"

definition loadCategories :: "(string \<Rightarrow> string) \<Rightarrow> RSSFeedConfig list \<Rightarrow> RSSCategory list" where
  "loadCategories unicodeLower feeds = map snd (categories_loop unicodeLower [] 0 feeds)"

definition loadCategories_indexed :: "(string \<Rightarrow> string) \<Rightarrow> RSSFeedConfig list \<Rightarrow> RSSCategory list" where
  "loadCategories_indexed unicodeLower feeds = map snd (categories_loop_indexed unicodeLower [] 0 feeds)"

text \<open>The feed configurations \<open>loadFeedsForCategory\<close> selects for a category id.\<close>

definition feedConfigsFor ::
  "(string \<Rightarrow> string) \<Rightarrow> string \<Rightarrow> RSSFeedConfig list \<Rightarrow> RSSFeedConfig list" where
  "feedConfigsFor unicodeLower categoryId feeds =
     filter (\<lambda>f. category_id unicodeLower (cfg_category f) = categoryId) feeds"

text \<open>The invariant of the category map: keys are distinct, and every entry carries its
  key as name and the normalised key as id.\<close>

definition map_wf :: "(string \<Rightarrow> string) \<Rightarrow> (string \<times> RSSCategory) list \<Rightarrow> bool" where
  "map_wf unicodeLower m =
     (distinct (map fst m) \<and> (\<forall>(k, c)\<in>set m. cat_name c = k \<and> cat_id c = category_id unicodeLower k))"

section \<open>The feed cache: \<open>useRSSData\<close>\<close>

text \<open>
  \<open>addFeedsToCategory\<close> appends the new items to the stored ones and keeps, for every
  link, the first item that carries it. The loop over \<open>allFeeds\<close> has two variables, the
  set of links seen and the list built so far.

  \<open>prev[categoryId] || []\<close> is the stored list, and the empty list when none is stored.
  For a key that is not stored and names an inherited member, the code reads that member
  and the spread of it throws, so that nothing is stored; the operation below takes the
  empty list there as well and stores the new items.
\<close>

fun unique_loop :: "string set \<Rightarrow> RSSItem list \<Rightarrow> RSSItem list \<Rightarrow> RSSItem list" where
  "unique_loop linkSet uniqueFeeds [] = uniqueFeeds"
| "unique_loop linkSet uniqueFeeds (feed # rest) =
     (if link feed \<notin> linkSet
      then unique_loop (insert (link feed) linkSet) (uniqueFeeds @ [feed]) rest
      else unique_loop linkSet uniqueFeeds rest)"

definition addFeedsToCategory :: "string \<Rightarrow> RSSItem list \<Rightarrow> FeedsByCategory \<Rightarrow> FeedsByCategory" where
  "addFeedsToCategory categoryId newFeeds prev =
     (let currentFeeds = (case prev categoryId of Some fs \<Rightarrow> fs | None \<Rightarrow> []);
          allFeeds = currentFeeds @ newFeeds
      in prev(categoryId \<mapsto> unique_loop {} [] allFeeds))"

definition clearCategoryFeeds :: "string \<Rightarrow> FeedsByCategory \<Rightarrow> FeedsByCategory" where
  "clearCategoryFeeds categoryId prev = prev(categoryId \<mapsto> [])"

definition clearAllFeeds :: "FeedsByCategory \<Rightarrow> FeedsByCategory" where
  "clearAllFeeds prev = Map.empty"

text \<open>The three operations as one type, and a run of them from the empty cache.\<close>

datatype cache_op =
    AddFeedsToCategory string "RSSItem list"
  | ClearCategoryFeeds string
  | ClearAllFeeds

fun apply_cache_op :: "FeedsByCategory \<Rightarrow> cache_op \<Rightarrow> FeedsByCategory" where
  "apply_cache_op prev (AddFeedsToCategory categoryId newFeeds) = addFeedsToCategory categoryId newFeeds prev"
| "apply_cache_op prev (ClearCategoryFeeds categoryId) = clearCategoryFeeds categoryId prev"
| "apply_cache_op prev ClearAllFeeds = clearAllFeeds prev"

definition run_cache_ops :: "cache_op list \<Rightarrow> FeedsByCategory" where
  "run_cache_ops ops = foldl apply_cache_op Map.empty ops"

definition links_distinct :: "FeedsByCategory \<Rightarrow> bool" where
  "links_distinct fbc = (\<forall>k fs. fbc k = Some fs \<longrightarrow> distinct (map link fs))"

section \<open>Loading in batches: the loop of \<open>loadFeedsForCategory\<close>\<close>

text \<open>
  The loop of the hook variant walks \<open>feedConfigs\<close> in steps of \<open>CONFIG.BATCH_SIZE\<close>. Each
  round starts the fetches of one slice and, when another round follows, waits
  \<open>CONFIG.BATCH_DELAY\<close> milliseconds. The model records what the loop does as a list of
  events. \<open>Array.prototype.slice\<close> with indices that are not negative is \<open>take\<close> after
  \<open>drop\<close>.
\<close>

definition BATCH_SIZE :: nat where
  "BATCH_SIZE = 3"

definition BATCH_DELAY :: nat where
  "BATCH_DELAY = 100"

definition js_slice :: "nat \<Rightarrow> nat \<Rightarrow> 'a list \<Rightarrow> 'a list" where
  "js_slice start stop xs = take (stop - start) (drop start xs)"

datatype load_event = FetchBatch "RSSFeedConfig list" | Pause nat

function batch_loop :: "nat \<Rightarrow> RSSFeedConfig list \<Rightarrow> load_event list" where
  "batch_loop i feedConfigs =
     (if i < length feedConfigs
      then FetchBatch (js_slice i (i + BATCH_SIZE) feedConfigs)
           # (if i + BATCH_SIZE < length feedConfigs then [Pause BATCH_DELAY] else [])
           @ batch_loop (i + BATCH_SIZE) feedConfigs
      else [])"
  by pat_completeness auto
termination
  by (relation "measure (\<lambda>(i, feedConfigs). length feedConfigs - i)") (auto simp: BATCH_SIZE_def)

text \<open>The batches of a run, and a separator put between the elements of a list.\<close>

fun batches_of :: "load_event list \<Rightarrow> RSSFeedConfig list list" where
  "batches_of [] = []"
| "batches_of (FetchBatch b # evs) = b # batches_of evs"
| "batches_of (Pause d # evs) = batches_of evs"

fun intersperse :: "'a \<Rightarrow> 'a list \<Rightarrow> 'a list" where
  "intersperse s [] = []"
| "intersperse s [x] = [x]"
| "intersperse s (x # y # zs) = x # s # intersperse s (y # zs)"

section \<open>What is displayed\<close>

text \<open>
  Which items are shown. The code tests \<open>selectedCategory\<close> for truth: \<open>null\<close> and the
  empty string are falsy, every other string is truthy.
\<close>

definition truthy :: "string option \<Rightarrow> bool" where
  "truthy s = (case s of None \<Rightarrow> False | Some c \<Rightarrow> c \<noteq> [])"

text \<open>The first variant of \<open>App\<close> keeps one list \<open>feeds\<close> and filters it by category id
  when \<open>selectedCategory\<close> is truthy; otherwise it shows all of it.\<close>

definition filteredFeeds_flat :: "string option \<Rightarrow> RSSItem list \<Rightarrow> RSSItem list" where
  "filteredFeeds_flat selectedCategory feeds =
     (if truthy selectedCategory
      then filter (\<lambda>feed. Some (cat_id (category feed)) = selectedCategory) feeds
      else feeds)"

text \<open>
  The other variants keep the cache \<open>feedsByCategory\<close> and show
  \<open>feedsByCategory[selectedCategory] || []\<close>. A stored list is truthy, also when it is
  empty, and so is an inherited member: what is shown is then that member, which is not a
  list, and the \<open>reduce\<close> of \<open>groupedFeeds\<close> on it throws.
\<close>

datatype feed_view = Feeds "RSSItem list" | InheritedMember

definition cached_or_empty :: "FeedsByCategory \<Rightarrow> string \<Rightarrow> feed_view" where
  "cached_or_empty feedsByCategory k =
     (case js_read feedsByCategory k of
        Own fs \<Rightarrow> Feeds fs
      | Inherited \<Rightarrow> InheritedMember
      | Missing \<Rightarrow> Feeds [])"

text \<open>
  \<open>App.tsx\<close>: with \<open>null\<close> selected it shows \<open>Object.values(feedsByCategory).flat()\<close>; the
  order in which an object enumerates its own keys is a parameter, \<open>ownKeys\<close>. With a
  truthy selection it shows what is cached under that id, and with the empty string
  nothing (\<open>filteredFeeds\<close> keeps its initial value).
\<close>

definition object_values :: "string list \<Rightarrow> (string \<rightharpoonup> 'a) \<Rightarrow> 'a list" where
  "object_values ownKeys obj = map (\<lambda>k. the (obj k)) ownKeys"

definition filteredFeeds :: "string option \<Rightarrow> string list \<Rightarrow> FeedsByCategory \<Rightarrow> feed_view" where
  "filteredFeeds selectedCategory ownKeys feedsByCategory =
     (if selectedCategory = None then Feeds (concat (object_values ownKeys feedsByCategory))
      else if truthy selectedCategory then cached_or_empty feedsByCategory (the selectedCategory)
      else Feeds [])"

text \<open>The hook variants (\<open>RSSPage\<close>) have no view of all categories.\<close>

definition currentFeeds :: "string option \<Rightarrow> FeedsByCategory \<Rightarrow> feed_view" where
  "currentFeeds selectedCategory feedsByCategory =
     (if truthy selectedCategory then cached_or_empty feedsByCategory (the selectedCategory)
      else Feeds [])"

text \<open>
  All cached items, and the invariant of the cache that every list is stored under the
  id of its items' category. Every load stores under \<open>categoryId\<close> items that carry the
  category found for that id.
\<close>

definition cached_items :: "FeedsByCategory \<Rightarrow> RSSItem set" where
  "cached_items fbc = \<Union> (set ` ran fbc)"

definition keyed_by_category :: "FeedsByCategory \<Rightarrow> bool" where
  "keyed_by_category fbc = (\<forall>k fs. fbc k = Some fs \<longrightarrow> (\<forall>f\<in>set fs. cat_id (category f) = k))"

text \<open>
  \<open>groupedFeeds\<close> reduces the displayed items into an object keyed by \<open>feedName\<close>, which
  starts as \<open>{}\<close>. One step: when \<open>acc[feed.feedName]\<close> is falsy, which of the values that
  can be read here only \<open>undefined\<close> is, the key is initialised with the empty array; then
  \<open>acc[feed.feedName].push(feed)\<close> appends to the stored array, and throws when what is
  read is an inherited member. The exception ends the reduction.
\<close>

definition group_step :: "GroupedFeeds \<Rightarrow> RSSItem \<Rightarrow> js_error + GroupedFeeds" where
  "group_step acc feed =
     (let acc1 = (case js_read acc (feedName feed) of
                    Missing \<Rightarrow> acc(feedName feed \<mapsto> [])
                  | _ \<Rightarrow> acc)
      in case js_read acc1 (feedName feed) of
           Own fs \<Rightarrow> Inr (acc1(feedName feed \<mapsto> fs @ [feed]))
         | Inherited \<Rightarrow> Inl TypeError
         | Missing \<Rightarrow> Inl TypeError)"

fun reduce_groups :: "GroupedFeeds \<Rightarrow> RSSItem list \<Rightarrow> js_error + GroupedFeeds" where
  "reduce_groups acc [] = Inr acc"
| "reduce_groups acc (feed # rest) =
     (case group_step acc feed of
        Inl e \<Rightarrow> Inl e
      | Inr acc' \<Rightarrow> reduce_groups acc' rest)"

definition groupedFeeds :: "RSSItem list \<Rightarrow> js_error + GroupedFeeds" where
  "groupedFeeds feeds = reduce_groups Map.empty feeds"

text \<open>The groups of what is shown: \<open>reduce\<close> is a method of arrays only.\<close>

definition groupedFeeds_of :: "feed_view \<Rightarrow> js_error + GroupedFeeds" where
  "groupedFeeds_of shown = (case shown of Feeds feeds \<Rightarrow> groupedFeeds feeds | InheritedMember \<Rightarrow> Inl TypeError)"

text \<open>\<open>toggleSource\<close> copies the set, removes the name if it is there and adds it if not.\<close>

definition toggleSource :: "string \<Rightarrow> string set \<Rightarrow> string set" where
  "toggleSource sourceName expandedSources =
     (if sourceName \<in> expandedSources
      then expandedSources - {sourceName}
      else insert sourceName expandedSources)"

section \<open>The state of \<open>App.tsx\<close> and its refresh\<close>

text \<open>
  \<open>allFeeds.sort((a, b) => b.pubDate.getTime() - a.pubDate.getTime())\<close>: newest first.
  \<open>Array.prototype.sort\<close> is stable, and a comparison that yields \<open>NaN\<close> counts as
  zero. With invalid dates the comparison is not consistent and the language leaves the
  order open; the insertion sort below is one such order, and what is proved of it holds of
  every permutation.
\<close>

definition compare_pubDate :: "RSSItem \<Rightarrow> RSSItem \<Rightarrow> int" where
  "compare_pubDate a b =
     (case (pubDate b, pubDate a) of (Some tb, Some ta) \<Rightarrow> tb - ta | _ \<Rightarrow> 0)"

fun insert_by :: "('a \<Rightarrow> 'a \<Rightarrow> int) \<Rightarrow> 'a \<Rightarrow> 'a list \<Rightarrow> 'a list" where
  "insert_by cmp x [] = [x]"
| "insert_by cmp x (y # ys) = (if cmp x y \<le> 0 then x # y # ys else y # insert_by cmp x ys)"

definition js_sort :: "('a \<Rightarrow> 'a \<Rightarrow> int) \<Rightarrow> 'a list \<Rightarrow> 'a list" where
  "js_sort cmp xs = foldr (insert_by cmp) xs []"

text \<open>The message of the error thrown when no category has the id.\<close>

definition category_missing :: string where
  "category_missing =
     [CHR 0xE5, CHR 0x88, CHR 0x86, CHR 0xE7, CHR 0xB1, CHR 0xBB, CHR 0xE4, CHR 0xB8, CHR 0x8D,
      CHR 0xE5, CHR 0xAD, CHR 0x98, CHR 0xE5, CHR 0x9C, CHR 0xA8]"

text \<open>
  The state of the component. \<open>rssConfig\<close> is the list \<open>config.feeds\<close>, \<open>None\<close> while the
  configuration is not loaded.
\<close>

record AppState =
  feedsByCategory :: FeedsByCategory
  categories :: "RSSCategory list"
  selectedCategory :: "string option"
  loading :: bool
  error :: "string option"
  expandedSources :: "string set"
  rssConfig :: "RSSFeedConfig list option"

text \<open>
  The network is a parameter: what \<open>fetchRSSFeed\<close> resolves to for the feed at a position
  of \<open>feedConfigs\<close>, \<open>None\<close> for \<open>null\<close>. \<open>fetchRSSFeed\<close> catches every exception, so no
  promise is rejected.
\<close>

type_synonym fetcher = "nat \<Rightarrow> RSSFeedConfig \<Rightarrow> RSSCategory \<Rightarrow> RSSItem list option"

text \<open>
  A load that has its answers stores its sorted list under its category id, expands the
  sources of that list and clears the \<open>loading\<close> flag.
\<close>

definition finish_load :: "AppState \<Rightarrow> string \<times> RSSItem list \<Rightarrow> AppState" where
  "finish_load s finished =
     (case finished of (categoryId, allFeeds) \<Rightarrow>
        s\<lparr>feedsByCategory := (feedsByCategory s)(categoryId \<mapsto> allFeeds),
          expandedSources := feedName ` set allFeeds,
          loading := False\<rparr>)"

text \<open>
  \<open>loadFeedsForCategory\<close>. It returns at once when the configuration is not loaded, and
  fails before any fetch when no category has the id. Otherwise it waits for the answers of
  its fetches. Nothing cancels a load: one that another call has started, before this one
  or while it waits, goes on when its answers are there, whatever has happened since.
  \<open>others\<close> lists the loads of other calls that finish while this one waits, in the order
  they finish, each with its category id and its sorted list.
\<close>

definition loadFeedsForCategory ::
  "(string \<Rightarrow> string) \<Rightarrow> fetcher \<Rightarrow> (string \<times> RSSItem list) list \<Rightarrow> string \<Rightarrow> AppState \<Rightarrow> AppState" where
  "loadFeedsForCategory unicodeLower fetched others categoryId s =
     (case rssConfig s of
        None \<Rightarrow> s
      | Some feeds \<Rightarrow>
          (let s1 = s\<lparr>loading := True, error := None\<rparr> in
           case find (\<lambda>c. cat_id c = categoryId) (categories s1) of
             None \<Rightarrow> s1\<lparr>error := Some category_missing, loading := False\<rparr>
           | Some cat \<Rightarrow>
               (let feedConfigs = feedConfigsFor unicodeLower categoryId feeds;
                    results = map (\<lambda>(i, feedConfig). fetched i feedConfig cat)
                                  (zip [0..<length feedConfigs] feedConfigs);
                    s2 = foldl finish_load s1 others;
                    allFeeds = js_sort compare_pubDate
                      (concat (map (\<lambda>result. case result of Some v \<Rightarrow> v | None \<Rightarrow> []) results))
                in finish_load s2 (categoryId, allFeeds))))"

definition loadAllFeeds :: "AppState \<Rightarrow> AppState" where
  "loadAllFeeds s = s"

definition handleRefresh ::
  "(string \<Rightarrow> string) \<Rightarrow> fetcher \<Rightarrow> (string \<times> RSSItem list) list \<Rightarrow> AppState \<Rightarrow> AppState" where
  "handleRefresh unicodeLower fetched others s =
     (let s0 = s\<lparr>feedsByCategory := Map.empty\<rparr> in
      if selectedCategory s0 = None then loadAllFeeds s0
      else if truthy (selectedCategory s0)
      then loadFeedsForCategory unicodeLower fetched others (the (selectedCategory s0)) s0
      else s0)"





section \<open>The state of the hook variants and their refresh\<close>

text \<open>
  \<open>RSSPage\<close> with \<open>useRSSData\<close> and \<open>useLoadingState\<close>. The names the hooks track are
  \<open>feedConfig.title\<close>, which a configuration need not have: \<open>None\<close> is \<open>undefined\<close>.
\<close>

record HookState =
  h_feedsByCategory :: FeedsByCategory
  h_categories :: "RSSCategory list"
  h_rssConfig :: "RSSFeedConfig list option"
  h_loading :: bool
  h_error :: "string option"
  h_loadingFeeds :: "string option set"
  h_failedFeeds :: "string option list"
  h_loadedFeedsCount :: nat
  h_selectedCategory :: "string option"
  h_expandedSources :: "string option set"
  h_isSorted :: bool
  h_isAddingCustomFeed :: bool

text \<open>
  The fetches of a load are started batch by batch and finish on their own, and nothing
  cancels them. What happens to the state while a load runs is a list of steps in the
  order they happen. A fetch of the load is started (\<open>addLoadingFeed\<close>). A fetch finishes
  with its result: a fetch of this load or of another one, and it adds to the category
  of the load that started it, the \<open>categoryId\<close> of its closure. In the variant with
  custom feeds, the fetch of \<open>handleAddCustomFeed\<close> finishes.

  \<open>addFeedsToCategory\<close> is applied as the cache section has it, also where a fetch of
  another load adds to a category that a refresh has removed from the cache in between.
\<close>

datatype fetch_step =
    StartFetch RSSFeedConfig
  | FinishFetch string RSSFeedConfig "RSSItem list option"
  | FinishCustomFeed "RSSItem list option"

definition resetLoadingState :: "HookState \<Rightarrow> HookState" where
  "resetLoadingState s = s\<lparr>h_loadingFeeds := {}, h_failedFeeds := [], h_loadedFeedsCount := 0\<rparr>"

text \<open>The title of the configuration \<open>handleAddCustomFeed\<close> makes up, and its message
  for a fetch without items.\<close>

definition custom_feed_title :: string where
  "custom_feed_title =
     [CHR 0xE8, CHR 0x87, CHR 0xAA, CHR 0xE5, CHR 0xAE, CHR 0x9A, CHR 0xE4, CHR 0xB9, CHR 0x89,
      CHR ''R'', CHR ''S'', CHR ''S'', CHR 0xE6, CHR 0xBA, CHR 0x90]"

definition custom_feed_failed :: string where
  "custom_feed_failed =
     [CHR 0xE6, CHR 0x97, CHR 0xA0, CHR 0xE6, CHR 0xB3, CHR 0x95, CHR 0xE8, CHR 0x8E, CHR 0xB7,
      CHR 0xE5, CHR 0x8F, CHR 0x96, CHR ''R'', CHR ''S'', CHR ''S'', CHR 0xE5, CHR 0x86, CHR 0x85,
      CHR 0xE5, CHR 0xAE, CHR 0xB9, CHR 0xEF, CHR 0xBC, CHR 0x8C, CHR 0xE8, CHR 0xAF, CHR 0xB7,
      CHR 0xE6, CHR 0xA3, CHR 0x80, CHR 0xE6, CHR 0x9F, CHR 0xA5, CHR ''U'', CHR ''R'', CHR ''L'',
      CHR 0xE6, CHR 0x98, CHR 0xAF, CHR 0xE5, CHR 0x90, CHR 0xA6, CHR 0xE6, CHR 0xAD, CHR 0xA3,
      CHR 0xE7, CHR 0xA1, CHR 0xAE]"

fun fetch_step_hook :: "HookState \<Rightarrow> fetch_step \<Rightarrow> HookState" where
  "fetch_step_hook s (StartFetch feedConfig) =
     s\<lparr>h_loadingFeeds := insert (cfg_title feedConfig) (h_loadingFeeds s)\<rparr>"
| "fetch_step_hook s (FinishFetch categoryId feedConfig result) =
     (let s1 = (case result of
                  Some r \<Rightarrow>
                    if r \<noteq> []
                    then s\<lparr>h_feedsByCategory := addFeedsToCategory categoryId r (h_feedsByCategory s),
                           h_expandedSources := insert (cfg_title feedConfig) (h_expandedSources s),
                           h_loadedFeedsCount := h_loadedFeedsCount s + 1\<rparr>
                    else s\<lparr>h_failedFeeds := h_failedFeeds s @ [cfg_title feedConfig]\<rparr>
                | None \<Rightarrow> s\<lparr>h_failedFeeds := h_failedFeeds s @ [cfg_title feedConfig]\<rparr>)
      in s1\<lparr>h_loadingFeeds := h_loadingFeeds s1 - {cfg_title feedConfig}\<rparr>)"
| "fetch_step_hook s (FinishCustomFeed result) =
     (let s1 = (case result of
                  Some r \<Rightarrow>
                    if r \<noteq> []
                    then s\<lparr>h_feedsByCategory := addFeedsToCategory ''custom'' r (h_feedsByCategory s),
                           h_expandedSources := insert (Some custom_feed_title) (h_expandedSources s),
                           h_loadedFeedsCount := h_loadedFeedsCount s + 1,
                           h_selectedCategory := Some ''custom''\<rparr>
                    else s\<lparr>h_error := Some custom_feed_failed\<rparr>
                | None \<Rightarrow> s\<lparr>h_error := Some custom_feed_failed\<rparr>)
      in s1\<lparr>h_isAddingCustomFeed := False\<rparr>)"


fun carries_category :: "fetch_step \<Rightarrow> bool" where
  "carries_category (StartFetch feedConfig) = True"
| "carries_category (FinishFetch categoryId feedConfig result) =
     (case result of Some r \<Rightarrow> list_all (\<lambda>f. cat_id (category f) = categoryId) r | None \<Rightarrow> True)"
| "carries_category (FinishCustomFeed result) =
     (case result of Some r \<Rightarrow> list_all (\<lambda>f. cat_id (category f) = ''custom'') r | None \<Rightarrow> True)"

text \<open>
  \<open>loadFeedsForCategory\<close> of the hook variants. One of them returns at once for the
  category \<open>custom\<close>, the other has no such test: \<open>customGuard\<close> tells which. The load
  returns at once when the configuration is not loaded, and fails before any fetch when no
  category has the id; otherwise \<open>steps\<close> is what happens until its loop has started the
  last batch.
\<close>

definition loadFeedsForCategory_hook :: "bool \<Rightarrow> fetch_step list \<Rightarrow> string \<Rightarrow> HookState \<Rightarrow> HookState" where
  "loadFeedsForCategory_hook customGuard steps categoryId s =
     (if customGuard \<and> categoryId = ''custom'' then s
      else case h_rssConfig s of
        None \<Rightarrow> s
      | Some feeds \<Rightarrow>
          (let s1 = resetLoadingState
                      (s\<lparr>h_error := None,
                         h_feedsByCategory := clearCategoryFeeds categoryId (h_feedsByCategory s)\<rparr>)
           in case find (\<lambda>c. cat_id c = categoryId) (h_categories s1) of
                None \<Rightarrow> s1\<lparr>h_error := Some category_missing\<rparr>
              | Some cat \<Rightarrow> foldl fetch_step_hook s1 steps))"

definition handleRefresh_hook :: "bool \<Rightarrow> fetch_step list \<Rightarrow> HookState \<Rightarrow> HookState" where
  "handleRefresh_hook customGuard steps s =
     (let s0 = (resetLoadingState (s\<lparr>h_feedsByCategory := clearAllFeeds (h_feedsByCategory s)\<rparr>))
                 \<lparr>h_isSorted := False\<rparr>
      in if truthy (h_selectedCategory s0)
         then loadFeedsForCategory_hook customGuard steps (the (h_selectedCategory s0)) s0
         else s0)"

text \<open>
  \<open>handleSortByTime\<close>, the one other handler that writes the cache: it sorts what
  \<open>prev[selectedCategory] || []\<close> gives and stores it under the selected id. The spread of
  an inherited member throws.
\<close>

definition handleSortByTime :: "HookState \<Rightarrow> js_error + HookState" where
  "handleSortByTime s =
     (if truthy (h_selectedCategory s)
      then (case cached_or_empty (h_feedsByCategory s) (the (h_selectedCategory s)) of
              Feeds stored \<Rightarrow>
                Inr (s\<lparr>h_feedsByCategory :=
                         (h_feedsByCategory s)(the (h_selectedCategory s)
                            \<mapsto> js_sort compare_pubDate stored),
                       h_isSorted := True\<rparr>)
            | InheritedMember \<Rightarrow> Inl TypeError)
      else Inr s)"




section \<open>Fetching a feed: \<open>fetchRSSFeed\<close>\<close>

text \<open>
  The proxy answers with JSON of any shape, so the values \<open>fetchRSSFeed\<close> works on are
  JavaScript values: what \<open>JSON.parse\<close> yields, \<open>undefined\<close> for a property that is not
  there, and the one function a read can reach (\<open>link\<close> of a string,
  \<open>String.prototype.link\<close>). An object is the list of its properties.
\<close>

datatype jsval =
    JUndefined
  | JNull
  | JBool bool
  | JNum int
  | JStr string
  | JArr "jsval list"
  | JObj "(string \<times> jsval) list"
  | JFun

text \<open>Truthiness, and \<open>a || b\<close>.\<close>

fun js_truthy :: "jsval \<Rightarrow> bool" where
  "js_truthy JUndefined = False"
| "js_truthy JNull = False"
| "js_truthy (JBool b) = b"
| "js_truthy (JNum n) = (n \<noteq> 0)"
| "js_truthy (JStr s) = (s \<noteq> [])"
| "js_truthy (JArr xs) = True"
| "js_truthy (JObj kvs) = True"
| "js_truthy JFun = True"

definition js_or :: "jsval \<Rightarrow> jsval \<Rightarrow> jsval" where
  "js_or a b = (if js_truthy a then a else b)"

text \<open>
  Reading a property, for the names \<open>fetchRSSFeed\<close> reads with \<open>.\<close> and \<open>?.\<close> (\<open>length\<close>
  is read of \<open>items\<close> only and is dealt with there). Of these names an object has its own
  properties, a string has \<open>link\<close>, and arrays, numbers and booleans have none. On
  \<open>null\<close> and \<open>undefined\<close> the read throws a \<open>TypeError\<close>; \<open>js_opt_get\<close> is the read
  through \<open>?.\<close>, and the plain read where the value is known not to be \<open>null\<close> or
  \<open>undefined\<close>.
\<close>

fun js_get :: "jsval \<Rightarrow> string \<Rightarrow> js_error + jsval" where
  "js_get JUndefined k = Inl TypeError"
| "js_get JNull k = Inl TypeError"
| "js_get (JObj kvs) k = Inr (case map_of kvs k of Some v \<Rightarrow> v | None \<Rightarrow> JUndefined)"
| "js_get (JStr s) k = Inr (if k = ''link'' then JFun else JUndefined)"
| "js_get (JArr xs) k = Inr JUndefined"
| "js_get JFun k = Inr JUndefined"
| "js_get (JBool b) k = Inr JUndefined"
| "js_get (JNum n) k = Inr JUndefined"

definition js_opt_get :: "jsval \<Rightarrow> string \<Rightarrow> jsval" where
  "js_opt_get v k = (case js_get v k of Inl e \<Rightarrow> JUndefined | Inr x \<Rightarrow> x)"

fun is_array :: "jsval \<Rightarrow> bool" where
  "is_array (JArr xs) = True"
| "is_array v = False"

fun is_string :: "jsval \<Rightarrow> bool" where
  "is_string (JStr s) = True"
| "is_string v = False"

text \<open>The defaults of a missing title and a missing description, as UTF-8.\<close>

definition no_title :: string where
  "no_title = [CHR 0xE6, CHR 0x97, CHR 0xA0, CHR 0xE6, CHR 0xA0, CHR 0x87, CHR 0xE9, CHR 0xA2, CHR 0x98]"

definition no_description :: string where
  "no_description = [CHR 0xE6, CHR 0x97, CHR 0xA0, CHR 0xE6, CHR 0x8F, CHR 0x8F, CHR 0xE8, CHR 0xBF, CHR 0xB0]"

text \<open>
  \<open>utils.generateId\<close> builds the id from the prefix, \<open>Date.now()\<close> and the index. The clock
  is a parameter, read once for the id and once for a missing date of each item.
\<close>

function show_nat :: "nat \<Rightarrow> string" where
  "show_nat n = (if n < 10 then [''0123456789'' ! n] else show_nat (n div 10) @ [''0123456789'' ! (n mod 10)])"
  by pat_completeness auto
termination
  by (relation "measure id") auto

declare show_nat.simps [simp del]

datatype clock_read = ForPubDate nat | ForId nat

definition generateId :: "(clock_read \<Rightarrow> nat) \<Rightarrow> string \<Rightarrow> nat \<Rightarrow> string" where
  "generateId now prefix index = prefix @ ''-'' @ show_nat (now (ForId index)) @ ''-'' @ show_nat index"

text \<open>
  What the network does: the fetch is rejected (or the URL cannot be encoded, which throws
  before the fetch), or there is a response with \<open>ok\<close>, \<open>status\<close> and a body, \<open>None\<close>
  when the body is not JSON.
\<close>

datatype fetch_outcome = Rejected | Responded bool nat "jsval option"

text \<open>
  The objects \<open>fetchRSSFeed\<close> returns have the fields of \<open>RSSItem\<close>; \<open>title\<close>, \<open>link\<close>,
  \<open>source\<close> and \<open>author\<close> are whatever the expressions of the code evaluate to.
\<close>

record FetchedItem =
  f_id :: string
  f_title :: jsval
  f_description :: string
  f_link :: jsval
  f_pubDate :: js_date
  f_category :: RSSCategory
  f_source :: jsval
  f_author :: jsval
  f_feedName :: string

text \<open>
  The chain of tests on the response, in the order of the code. It yields \<open>items\<close> and
  \<open>feedTitle\<close>. Only the first read, \<open>data.status\<close>, can throw (on \<open>null\<close>).
\<close>

definition detect_shape :: "jsval \<Rightarrow> js_error + jsval \<times> jsval" where
  "detect_shape data =
     (case js_get data ''status'' of
        Inl e \<Rightarrow> Inl e
      | Inr status \<Rightarrow>
          Inr (if status = JStr ''ok'' \<and> js_truthy (js_opt_get data ''items'')
               then (js_opt_get data ''items'',
                     js_or (js_or (js_opt_get (js_opt_get data ''feed'') ''title'')
                                  (js_opt_get (js_opt_get data ''feed'') ''name'')) (JStr []))
               else if is_array data
               then (data, JStr [])
               else if js_truthy (js_opt_get (js_opt_get (js_opt_get data ''rss'') ''channel'') ''item'')
               then (let channel = js_opt_get (js_opt_get data ''rss'') ''channel'';
                         item = js_opt_get channel ''item''
                     in (if is_array item then item else JArr [item],
                         js_or (js_or (js_opt_get channel ''title'') (js_opt_get channel ''name'')) (JStr [])))
               else if js_truthy (js_opt_get (js_opt_get data ''feed'') ''entry'')
               then (let feed = js_opt_get data ''feed'';
                         entry = js_opt_get feed ''entry''
                     in (if is_array entry then entry else JArr [entry],
                         js_or (js_or (js_opt_get feed ''title'') (js_opt_get feed ''name'')) (JStr [])))
               else if js_truthy (js_opt_get data ''items'') \<and> is_array (js_opt_get data ''items'')
               then (js_opt_get data ''items'',
                     js_or (js_or (js_opt_get data ''title'') (js_opt_get data ''name'')) (JStr []))
               else (JArr [], JStr [])))"

text \<open>\<open>typeof v === 'string' ? v : (v?._text || v?._cdata || fallback)\<close>.\<close>

definition text_of :: "jsval \<Rightarrow> jsval \<Rightarrow> jsval" where
  "text_of v fallback =
     (if is_string v then v
      else js_or (js_or (js_opt_get v ''_text'') (js_opt_get v ''_cdata'')) fallback)"

text \<open>\<open>utils.stripHtml\<close> on a value: a truthy value that is not a string has no
  \<open>replace\<close>, and the call throws.\<close>

fun stripHtml_js :: "jsval \<Rightarrow> js_error + string" where
  "stripHtml_js (JStr h) = Inr (stripHtml (Some h))"
| "stripHtml_js v = (if js_truthy v then Inl TypeError else Inr [])"

text \<open>\<open>feedConfig.title\<close> as a value, and \<open>feedConfig.title || feedConfig.name\<close>.\<close>

definition cfg_title_js :: "RSSFeedConfig \<Rightarrow> jsval" where
  "cfg_title_js feedConfig = (case cfg_title feedConfig of Some t \<Rightarrow> JStr t | None \<Rightarrow> JUndefined)"

definition cfg_label :: "RSSFeedConfig \<Rightarrow> string" where
  "cfg_label feedConfig =
     (case cfg_title feedConfig of
        Some t \<Rightarrow> if t \<noteq> [] then t else cfg_name feedConfig
      | None \<Rightarrow> cfg_name feedConfig)"

text \<open>
  The function mapped over \<open>items\<close>. The Date constructor is a parameter, \<open>newDate\<close>:
  how a string is parsed is left to the implementation, and for some objects the
  conversion to a primitive throws.
\<close>

definition map_item ::
  "(jsval \<Rightarrow> js_error + js_date) \<Rightarrow> (clock_read \<Rightarrow> nat) \<Rightarrow> RSSFeedConfig \<Rightarrow> RSSCategory \<Rightarrow> jsval
   \<Rightarrow> nat \<Rightarrow> jsval \<Rightarrow> js_error + FetchedItem" where
  "map_item newDate now feedConfig cat feedTitle index item =
     (case js_get item ''title'' of
        Inl e \<Rightarrow> Inl e
      | Inr item_title \<Rightarrow>
          (let title0 = js_or (js_or item_title (js_opt_get item ''name'')) (JStr no_title);
               description0 = js_or (js_or (js_or (js_opt_get item ''description'') (js_opt_get item ''content''))
                                          (js_opt_get item ''summary'')) (JStr no_description);
               link0 = js_or (js_or (js_opt_get item ''link'') (js_opt_get item ''url'')) (JStr ''#'');
               pubDate0 = js_or (js_or (js_or (js_or (js_opt_get item ''pubDate'') (js_opt_get item ''published''))
                                             (js_opt_get item ''updated'')) (js_opt_get item ''date''))
                               (JNum (int (now (ForPubDate index))));
               author0 = js_or (js_or (js_or (js_or (js_opt_get item ''author'') (js_opt_get item ''creator''))
                                            feedTitle) (cfg_title_js feedConfig)) (JStr (cfg_name feedConfig))
           in case stripHtml_js (text_of description0 (JStr no_description)) of
                Inl e \<Rightarrow> Inl e
              | Inr stripped \<Rightarrow>
                  (case newDate pubDate0 of
                     Inl e \<Rightarrow> Inl e
                   | Inr date \<Rightarrow>
                       Inr \<lparr>f_id = generateId now (cfg_label feedConfig) index,
                            f_title = text_of title0 (JStr no_title),
                            f_description = stripped,
                            f_link = text_of link0 (JStr ''#''),
                            f_pubDate = date,
                            f_category = cat,
                            f_source = js_or (js_or feedTitle (cfg_title_js feedConfig)) (JStr (cfg_name feedConfig)),
                            f_author = (if is_string author0 then author0
                                        else js_or (js_or (js_or (js_opt_get author0 ''_text'')
                                                                 (js_opt_get author0 ''_cdata''))
                                                          (cfg_title_js feedConfig))
                                                   (JStr (cfg_name feedConfig))),
                            f_feedName = cfg_label feedConfig\<rparr>)))"

fun map_items :: "(nat \<Rightarrow> jsval \<Rightarrow> js_error + FetchedItem) \<Rightarrow> nat \<Rightarrow> jsval list \<Rightarrow> js_error + FetchedItem list" where
  "map_items f index [] = Inr []"
| "map_items f index (item # rest) =
     (case f index item of
        Inl e \<Rightarrow> Inl e
      | Inr y \<Rightarrow> (case map_items f (index + 1) rest of Inl e \<Rightarrow> Inl e | Inr ys \<Rightarrow> Inr (y # ys)))"

text \<open>
  The whole body is inside \<open>try\<close>, and the handler returns \<open>null\<close>: every error becomes
  \<open>None\<close>. A truthy \<open>items\<close> that is not an array has no \<open>map\<close>: the length test fails
  and \<open>null\<close> is returned, or the call throws and the handler returns \<open>null\<close>.
\<close>

definition fetchRSSFeed ::
  "(jsval \<Rightarrow> js_error + js_date) \<Rightarrow> (clock_read \<Rightarrow> nat) \<Rightarrow> RSSFeedConfig \<Rightarrow> RSSCategory
   \<Rightarrow> fetch_outcome \<Rightarrow> FetchedItem list option" where
  "fetchRSSFeed newDate now feedConfig cat outcome =
     (case outcome of
        Rejected \<Rightarrow> None
      | Responded ok status body \<Rightarrow>
          if \<not> ok then None
          else (case body of
                  None \<Rightarrow> None
                | Some data \<Rightarrow>
                    (case detect_shape data of
                       Inl e \<Rightarrow> None
                     | Inr (items, feedTitle) \<Rightarrow>
                         (case items of
                            JArr xs \<Rightarrow>
                              if xs \<noteq> []
                              then (case map_items (map_item newDate now feedConfig cat feedTitle) 0 xs of
                                      Inl e \<Rightarrow> None
                                    | Inr mapped \<Rightarrow> Some mapped)
                              else None
                          | _ \<Rightarrow> None))))"

section \<open>Properties of the feed cache\<close>

lemma unique_loop_append: "unique_loop S acc xs = acc @ unique_loop S [] xs"
proof (induction xs arbitrary: S acc)
  case Nil
  show ?case by simp
next
  case (Cons x xs)
  show ?case
    using Cons.IH [of "insert (link x) S" "acc @ [x]"] Cons.IH [of "insert (link x) S" "[x]"]
      Cons.IH [of S acc]
    by simp
qed

lemma unique_loop_links: "link ` set (unique_loop S [] xs) = link ` set xs - S"
proof (induction xs arbitrary: S)
  case Nil
  show ?case by simp
next
  case (Cons x xs)
  show ?case
    using Cons.IH [of "insert (link x) S"] Cons.IH [of S]
      unique_loop_append [of "insert (link x) S" "[x]" xs]
    by auto
qed

lemma unique_loop_distinct: "distinct (map link (unique_loop S [] xs))"
proof (induction xs arbitrary: S)
  case Nil
  show ?case by simp
next
  case (Cons x xs)
  show ?case
    using Cons.IH [of "insert (link x) S"] Cons.IH [of S]
      unique_loop_append [of "insert (link x) S" "[x]" xs]
      unique_loop_links [of "insert (link x) S" xs]
    by auto
qed

lemma links_distinct_empty: "links_distinct Map.empty"
  by (simp add: links_distinct_def)

lemma links_distinct_step: "links_distinct prev \<Longrightarrow> links_distinct (apply_cache_op prev op)"
  by (cases op)
    (auto simp: links_distinct_def addFeedsToCategory_def clearCategoryFeeds_def
      clearAllFeeds_def unique_loop_distinct)

lemma links_distinct_foldl: "links_distinct s \<Longrightarrow> links_distinct (foldl apply_cache_op s ops)"
  by (induction ops arbitrary: s) (simp_all add: links_distinct_step)

text \<open>
  C1. Whatever sequence of \<open>addFeedsToCategory\<close>, \<open>clearCategoryFeeds\<close> and
  \<open>clearAllFeeds\<close> is applied to the empty cache, every list stored in
  \<open>feedsByCategory\<close> has pairwise distinct links.
\<close>

theorem cache_links_distinct: "links_distinct (run_cache_ops ops)"
  unfolding run_cache_ops_def by (rule links_distinct_foldl [OF links_distinct_empty])

theorem cache_links_distinct_witness:
  "run_cache_ops
     [AddFeedsToCategory ''tech''
        [sample_item ''A'' ''l1'' ''tech'' ''F'', sample_item ''B'' ''l2'' ''tech'' ''F''],
      AddFeedsToCategory ''tech''
        [sample_item ''A2'' ''l1'' ''tech'' ''G'', sample_item ''C'' ''l3'' ''tech'' ''G''],
      ClearCategoryFeeds ''news''] ''tech''
   = Some [sample_item ''A'' ''l1'' ''tech'' ''F'', sample_item ''B'' ''l2'' ''tech'' ''F'',
           sample_item ''C'' ''l3'' ''tech'' ''G'']
   \<and> distinct (map link
         [sample_item ''A'' ''l1'' ''tech'' ''F'', sample_item ''B'' ''l2'' ''tech'' ''F'',
          sample_item ''C'' ''l3'' ''tech'' ''G''])"
proof -
  let ?ops = "[AddFeedsToCategory ''tech''
        [sample_item ''A'' ''l1'' ''tech'' ''F'', sample_item ''B'' ''l2'' ''tech'' ''F''],
      AddFeedsToCategory ''tech''
        [sample_item ''A2'' ''l1'' ''tech'' ''G'', sample_item ''C'' ''l3'' ''tech'' ''G''],
      ClearCategoryFeeds ''news'']"
  let ?stored = "[sample_item ''A'' ''l1'' ''tech'' ''F'', sample_item ''B'' ''l2'' ''tech'' ''F'',
           sample_item ''C'' ''l3'' ''tech'' ''G'']"
  have run: "run_cache_ops ?ops ''tech'' = Some ?stored"
    by (simp add: run_cache_ops_def addFeedsToCategory_def clearCategoryFeeds_def sample_item_def)
  from cache_links_distinct [of ?ops] run have "distinct (map link ?stored)"
    unfolding links_distinct_def by blast
  with run show ?thesis by simp
qed

lemma unique_loop_app2:
  "unique_loop S [] (xs @ ys) = unique_loop S [] xs @ unique_loop (S \<union> link ` set xs) [] ys"
proof (induction xs arbitrary: S)
  case Nil
  show ?case by simp
next
  case (Cons x xs)
  show ?case
  proof (cases "link x \<in> S")
    case True
    then have "S \<union> link ` set (x # xs) = S \<union> link ` set xs" by auto
    with True Cons.IH [of S] show ?thesis by simp
  next
    case False
    have "insert (link x) S \<union> link ` set xs = S \<union> link ` set (x # xs)" by auto
    with False Cons.IH [of "insert (link x) S"]
      unique_loop_append [of "insert (link x) S" "[x]" "xs @ ys"]
      unique_loop_append [of "insert (link x) S" "[x]" "xs"]
    show ?thesis by simp
  qed
qed

lemma unique_loop_id:
  "distinct (map link xs) \<Longrightarrow> link ` set xs \<inter> S = {} \<Longrightarrow> unique_loop S [] xs = xs"
proof (induction xs arbitrary: S)
  case Nil
  show ?case by simp
next
  case (Cons x xs)
  from Cons.prems have a: "link x \<notin> S" and b: "distinct (map link xs)"
    and c: "link ` set xs \<inter> insert (link x) S = {}" by auto
  from Cons.IH [OF b c] a unique_loop_append [of "insert (link x) S" "[x]" "xs"]
  show ?case by simp
qed

text \<open>
  C2, as the code has it. The claim says that a later item replaces a stored item with the
  same link. The loop keeps the first item of every link, and the stored items come
  first: when the stored list has distinct links it stays as it is, in place, and of the
  new items only those with a link not yet stored are appended. A later item with a stored
  link is dropped.
\<close>

theorem addFeeds_first_wins:
  assumes "prev categoryId = Some stored" and "distinct (map link stored)"
  shows "addFeedsToCategory categoryId newFeeds prev categoryId
           = Some (stored @ unique_loop (link ` set stored) [] newFeeds)
         \<and> (\<forall>f\<in>set newFeeds. \<forall>g\<in>set stored. link f = link g \<longrightarrow> f \<noteq> g \<longrightarrow>
               f \<notin> set (stored @ unique_loop (link ` set stored) [] newFeeds))"
proof -
  have "unique_loop {} [] (stored @ newFeeds)
        = stored @ unique_loop (link ` set stored) [] newFeeds"
    using unique_loop_app2 [of "{}" stored newFeeds] unique_loop_id [OF assms(2), of "{}"]
    by simp
  then have one: "addFeedsToCategory categoryId newFeeds prev categoryId
           = Some (stored @ unique_loop (link ` set stored) [] newFeeds)"
    using assms(1) by (simp add: addFeedsToCategory_def)
  have two: "f \<notin> set (stored @ unique_loop (link ` set stored) [] newFeeds)"
    if "f \<in> set newFeeds" "g \<in> set stored" "link f = link g" "f \<noteq> g" for f g
  proof -
    have "link f \<notin> link ` set (unique_loop (link ` set stored) [] newFeeds)"
      using that(2,3) by (simp add: unique_loop_links)
    then have "f \<notin> set (unique_loop (link ` set stored) [] newFeeds)" by blast
    moreover have "f \<notin> set stored"
      using assms(2) that(2,3,4) by (meson distinct_map inj_onD)
    ultimately show ?thesis by simp
  qed
  from one two show ?thesis by blast
qed

theorem addFeeds_first_wins_witness:
  "addFeedsToCategory ''tech''
     [sample_item ''later'' ''l1'' ''tech'' ''F'', sample_item ''other'' ''l2'' ''tech'' ''F'']
     [''tech'' \<mapsto> [sample_item ''earlier'' ''l1'' ''tech'' ''F'']] ''tech''
   = Some [sample_item ''earlier'' ''l1'' ''tech'' ''F'', sample_item ''other'' ''l2'' ''tech'' ''F'']
   \<and> sample_item ''later'' ''l1'' ''tech'' ''F''
       \<notin> set [sample_item ''earlier'' ''l1'' ''tech'' ''F'', sample_item ''other'' ''l2'' ''tech'' ''F'']"
proof -
  let ?prev = "[''tech'' \<mapsto> [sample_item ''earlier'' ''l1'' ''tech'' ''F'']]"
  have h1: "?prev ''tech'' = Some [sample_item ''earlier'' ''l1'' ''tech'' ''F'']" by simp
  have h2: "distinct (map link [sample_item ''earlier'' ''l1'' ''tech'' ''F''])" by simp
  show ?thesis
    using addFeeds_first_wins [of ?prev "''tech''" "[sample_item ''earlier'' ''l1'' ''tech'' ''F'']"
        "[sample_item ''later'' ''l1'' ''tech'' ''F'', sample_item ''other'' ''l2'' ''tech'' ''F'']",
        OF h1 h2, THEN conjunct1]
    by (simp add: sample_item_def)
qed

text \<open>The claim as stated fails: the later item with the link \<open>l1\<close> does not replace the
  stored one.\<close>

theorem later_response_overwrites_counterexample:
  "addFeedsToCategory ''tech'' [sample_item ''later'' ''l1'' ''tech'' ''F'']
     [''tech'' \<mapsto> [sample_item ''earlier'' ''l1'' ''tech'' ''F'']] ''tech''
   = Some [sample_item ''earlier'' ''l1'' ''tech'' ''F'']
   \<and> link (sample_item ''later'' ''l1'' ''tech'' ''F'') = link (sample_item ''earlier'' ''l1'' ''tech'' ''F'')
   \<and> sample_item ''later'' ''l1'' ''tech'' ''F'' \<noteq> sample_item ''earlier'' ''l1'' ''tech'' ''F''"
  by (simp add: addFeedsToCategory_def sample_item_def)

section \<open>Properties of \<open>groupedFeeds\<close>\<close>

lemma group_step_stored:
  "feedName feed \<notin> set object_prototype_names \<or> acc (feedName feed) \<noteq> None \<Longrightarrow>
   group_step acc feed
     = Inr (acc(feedName feed \<mapsto> (case acc (feedName feed) of None \<Rightarrow> [] | Some fs \<Rightarrow> fs) @ [feed]))"
  by (auto simp: group_step_def js_read_def Let_def split: option.splits)

lemma group_step_inherited:
  "feedName feed \<in> set object_prototype_names \<Longrightarrow> acc (feedName feed) = None \<Longrightarrow>
   group_step acc feed = Inl TypeError"
  by (simp add: group_step_def js_read_def Let_def)

lemma reduce_groups_stored:
  assumes "\<forall>f\<in>set feeds. feedName f \<notin> set object_prototype_names"
  shows "\<exists>g. reduce_groups acc feeds = Inr g
     \<and> (\<forall>k. g k = (if filter (\<lambda>f. feedName f = k) feeds = [] then acc k
                   else Some ((case acc k of None \<Rightarrow> [] | Some fs \<Rightarrow> fs)
                              @ filter (\<lambda>f. feedName f = k) feeds)))"
  using assms
proof (induction feeds arbitrary: acc)
  case Nil
  show ?case by simp
next
  case (Cons x xs)
  let ?acc = "acc(feedName x \<mapsto> (case acc (feedName x) of None \<Rightarrow> [] | Some fs \<Rightarrow> fs) @ [x])"
  from Cons.prems have step: "group_step acc x = Inr ?acc" by (simp add: group_step_stored)
  from Cons.prems have "\<forall>f\<in>set xs. feedName f \<notin> set object_prototype_names" by simp
  from Cons.IH [OF this, of ?acc] obtain g where
    g: "reduce_groups ?acc xs = Inr g"
       "\<forall>k. g k = (if filter (\<lambda>f. feedName f = k) xs = [] then ?acc k
                   else Some ((case ?acc k of None \<Rightarrow> [] | Some fs \<Rightarrow> fs)
                              @ filter (\<lambda>f. feedName f = k) xs))"
    by blast
  have "reduce_groups acc (x # xs) = Inr g" using step g(1) by simp
  moreover have "g k = (if filter (\<lambda>f. feedName f = k) (x # xs) = [] then acc k
                   else Some ((case acc k of None \<Rightarrow> [] | Some fs \<Rightarrow> fs)
                              @ filter (\<lambda>f. feedName f = k) (x # xs)))" for k
    using g(2) [THEN spec, of k] by (auto split: option.splits)
  ultimately show ?case by blast
qed

lemma reduce_groups_inherited:
  assumes "\<exists>f\<in>set feeds. feedName f \<in> set object_prototype_names"
    and "dom acc \<inter> set object_prototype_names = {}"
  shows "reduce_groups acc feeds = Inl TypeError"
  using assms
proof (induction feeds arbitrary: acc)
  case Nil
  then show ?case by simp
next
  case (Cons x xs)
  show ?case
  proof (cases "feedName x \<in> set object_prototype_names")
    case True
    with Cons.prems(2) have "acc (feedName x) = None" by auto
    with True have "group_step acc x = Inl TypeError" by (rule group_step_inherited)
    then show ?thesis by simp
  next
    case False
    let ?acc = "acc(feedName x \<mapsto> (case acc (feedName x) of None \<Rightarrow> [] | Some fs \<Rightarrow> fs) @ [x])"
    from False have step: "group_step acc x = Inr ?acc" by (simp add: group_step_stored)
    from False Cons.prems(1) have ex: "\<exists>f\<in>set xs. feedName f \<in> set object_prototype_names" by auto
    from False Cons.prems(2) have "dom ?acc \<inter> set object_prototype_names = {}" by auto
    from Cons.IH [OF ex this] have "reduce_groups ?acc xs = Inl TypeError" .
    then show ?thesis by (simp only: reduce_groups.simps step sum.case)
  qed
qed

lemma groupedFeeds_throws:
  "groupedFeeds feeds = Inl TypeError \<longleftrightarrow> (\<exists>f\<in>set feeds. feedName f \<in> set object_prototype_names)"
proof
  assume a: "groupedFeeds feeds = Inl TypeError"
  show "\<exists>f\<in>set feeds. feedName f \<in> set object_prototype_names"
  proof (rule ccontr)
    assume "\<not> (\<exists>f\<in>set feeds. feedName f \<in> set object_prototype_names)"
    then have "\<forall>f\<in>set feeds. feedName f \<notin> set object_prototype_names" by simp
    from reduce_groups_stored [OF this, of Map.empty] a show False
      by (auto simp: groupedFeeds_def)
  qed
next
  assume "\<exists>f\<in>set feeds. feedName f \<in> set object_prototype_names"
  then show "groupedFeeds feeds = Inl TypeError"
    unfolding groupedFeeds_def by (rule reduce_groups_inherited) simp
qed

lemma mset_by_key:
  "distinct ks \<Longrightarrow> f ` set xs \<subseteq> set ks \<Longrightarrow>
   (\<Sum>k\<leftarrow>ks. mset (filter (\<lambda>x. f x = k) xs)) = mset xs"
proof (induction xs)
  case Nil
  show ?case by (induction ks) simp_all
next
  case (Cons x xs)
  then have IH: "(\<Sum>k\<leftarrow>ks. mset (filter (\<lambda>x. f x = k) xs)) = mset xs" by simp
  from Cons.prems have mem: "f x \<in> set ks" by simp
  have single: "(\<Sum>k\<leftarrow>ks. (if f x = k then {#x#} else {#})) = {#x#}"
    using Cons.prems(1) mem
  proof (induction ks)
    case Nil
    then show ?case by simp
  next
    case (Cons a ks)
    show ?case
    proof (cases "f x = a")
      case True
      with Cons.prems have "f x \<notin> set ks" by auto
      then have "(\<Sum>k\<leftarrow>ks. (if f x = k then {#x#} else {#})) = {#}"
        by (induction ks) auto
      with True show ?thesis by simp
    next
      case False
      with Cons show ?thesis by auto
    qed
  qed
  have "(\<Sum>k\<leftarrow>ks. mset (filter (\<lambda>y. f y = k) (x # xs)))
        = (\<Sum>k\<leftarrow>ks. (if f x = k then {#x#} else {#}) + mset (filter (\<lambda>y. f y = k) xs))"
    by (rule arg_cong [where f = sum_list]) (simp)
  also have "\<dots> = (\<Sum>k\<leftarrow>ks. (if f x = k then {#x#} else {#})) + (\<Sum>k\<leftarrow>ks. mset (filter (\<lambda>y. f y = k) xs))"
    by (simp add: sum_list_addf)
  finally show ?case using single IH by simp
qed

text \<open>
  What the grouping does for feeds whose name is no inherited member name: it returns an
  object in which the group of a source is the input filtered by that source, so the items
  of a group are in their input order; the groups together hold every item exactly as
  often as the input does; and two items are in the same group exactly when their
  \<open>feedName\<close> is the same.
\<close>

lemma groupedFeeds_partition:
  assumes "\<forall>f\<in>set feeds. feedName f \<notin> set object_prototype_names"
  shows "\<exists>g. groupedFeeds feeds = Inr g
   \<and> (\<forall>k. g k = (if k \<in> feedName ` set feeds then Some (filter (\<lambda>f. feedName f = k) feeds) else None))
   \<and> (\<Sum>k\<leftarrow>remdups (map feedName feeds). mset (the (g k))) = mset feeds
   \<and> (\<forall>k k' fs fs' x y.
         g k = Some fs \<and> g k' = Some fs' \<and> x \<in> set fs \<and> y \<in> set fs'
         \<longrightarrow> (k = k') = (feedName x = feedName y))"
proof -
  from reduce_groups_stored [OF assms, of Map.empty] obtain g where
    g: "groupedFeeds feeds = Inr g"
    and gk: "\<And>k. g k = (if filter (\<lambda>f. feedName f = k) feeds = [] then None
                   else Some (filter (\<lambda>f. feedName f = k) feeds))"
    by (auto simp: groupedFeeds_def)
  have eq: "g k = (if k \<in> feedName ` set feeds then Some (filter (\<lambda>f. feedName f = k) feeds) else None)" for k
    unfolding gk by (auto simp: filter_empty_conv)
  have "(\<Sum>k\<leftarrow>remdups (map feedName feeds). mset (the (g k)))
        = (\<Sum>k\<leftarrow>remdups (map feedName feeds). mset (filter (\<lambda>f. feedName f = k) feeds))"
    by (rule arg_cong [where f = sum_list]) (simp add: eq)
  also have "\<dots> = mset feeds"
    by (rule mset_by_key) simp_all
  finally have two: "(\<Sum>k\<leftarrow>remdups (map feedName feeds). mset (the (g k))) = mset feeds" .
  have three: "(k = k') = (feedName x = feedName y)"
    if "g k = Some fs" "g k' = Some fs'" "x \<in> set fs" "y \<in> set fs'"
    for k k' fs fs' x y
  proof -
    from that(1,3) have "feedName x = k" by (auto simp: eq split: if_splits)
    moreover from that(2,4) have "feedName y = k'" by (auto simp: eq split: if_splits)
    ultimately show ?thesis by auto
  qed
  have "\<forall>k k' fs fs' x y.
         g k = Some fs \<and> g k' = Some fs' \<and> x \<in> set fs \<and> y \<in> set fs'
         \<longrightarrow> (k = k') = (feedName x = feedName y)"
    using three by blast
  with g eq two show ?thesis by blast
qed

lemma groupedFeeds_partition_example:
  "\<exists>g. groupedFeeds [sample_item ''t1'' ''l1'' ''tech'' ''A'', sample_item ''t2'' ''l2'' ''tech'' ''B'',
                     sample_item ''t3'' ''l3'' ''tech'' ''A''] = Inr g
     \<and> g ''A'' = Some [sample_item ''t1'' ''l1'' ''tech'' ''A'', sample_item ''t3'' ''l3'' ''tech'' ''A'']
     \<and> g ''B'' = Some [sample_item ''t2'' ''l2'' ''tech'' ''B'']
     \<and> g ''C'' = None"
proof -
  let ?feeds = "[sample_item ''t1'' ''l1'' ''tech'' ''A'', sample_item ''t2'' ''l2'' ''tech'' ''B'',
                 sample_item ''t3'' ''l3'' ''tech'' ''A'']"
  have "\<forall>f\<in>set ?feeds. feedName f \<notin> set object_prototype_names"
    by (simp add: sample_item_def object_prototype_names_def)
  from groupedFeeds_partition [OF this] obtain g where
    g: "groupedFeeds ?feeds = Inr g"
       "\<forall>k. g k = (if k \<in> feedName ` set ?feeds then Some (filter (\<lambda>f. feedName f = k) ?feeds) else None)"
    by blast
  from g(2) have "g ''A'' = Some [sample_item ''t1'' ''l1'' ''tech'' ''A'', sample_item ''t3'' ''l3'' ''tech'' ''A'']"
    "g ''B'' = Some [sample_item ''t2'' ''l2'' ''tech'' ''B'']" "g ''C'' = None"
    by (simp_all add: sample_item_def)
  with g(1) show ?thesis by blast
qed

text \<open>
  C3. The claim is for every list of items; the code does not group every list. An
  accumulator \<open>{}\<close> inherits \<open>constructor\<close>, so for an item of a feed with that name the
  test \<open>!acc[feed.feedName]\<close> finds a function, nothing is initialised, and \<open>push\<close> on
  the function throws: the items are not grouped, and the page that renders the groups
  fails. The declared type \<open>GroupedFeeds\<close> promises an array under every feed name.
\<close>

theorem groupedFeeds_inherited_name:
  "groupedFeeds [sample_item ''t1'' ''l1'' ''tech'' ''A'',
                 sample_item ''t2'' ''l2'' ''tech'' ''constructor''] = Inl TypeError"
  by (simp add: groupedFeeds_def group_step_def js_read_def Let_def sample_item_def
      object_prototype_names_def)

section \<open>Properties of the batch loop\<close>

declare batch_loop.simps [simp del]

lemma batch_loop_done: "length cfgs \<le> i \<Longrightarrow> batch_loop i cfgs = []"
  by (subst batch_loop.simps) simp

lemma batch_loop_last:
  "i < length cfgs \<Longrightarrow> length cfgs \<le> i + BATCH_SIZE \<Longrightarrow> batch_loop i cfgs = [FetchBatch (drop i cfgs)]"
  by (subst batch_loop.simps) (simp add: batch_loop_done js_slice_def)

lemma batch_loop_more:
  "i + BATCH_SIZE < length cfgs \<Longrightarrow>
   batch_loop i cfgs = FetchBatch (take BATCH_SIZE (drop i cfgs)) # Pause BATCH_DELAY # batch_loop (i + BATCH_SIZE) cfgs"
  by (subst batch_loop.simps) (simp add: js_slice_def BATCH_SIZE_def)

lemma batch_loop_next_nonempty:
  "i < length cfgs \<Longrightarrow> \<exists>b evs. batch_loop i cfgs = FetchBatch b # evs \<and> b \<noteq> [] \<and> length b \<le> BATCH_SIZE"
  by (subst batch_loop.simps) (auto simp: js_slice_def BATCH_SIZE_def)

lemma batch_loop_props:
  "concat (batches_of (batch_loop i cfgs)) = drop i cfgs
   \<and> (\<forall>b\<in>set (batches_of (batch_loop i cfgs)). b \<noteq> [] \<and> length b \<le> BATCH_SIZE)
   \<and> (\<forall>b\<in>set (butlast (batches_of (batch_loop i cfgs))). length b = BATCH_SIZE)
   \<and> batch_loop i cfgs = intersperse (Pause BATCH_DELAY) (map FetchBatch (batches_of (batch_loop i cfgs)))"
proof (induction i cfgs rule: batch_loop.induct)
  case (1 i cfgs)
  consider (finished) "length cfgs \<le> i" | (last) "i < length cfgs" "length cfgs \<le> i + BATCH_SIZE"
    | (more) "i + BATCH_SIZE < length cfgs" by linarith
  then show ?case
  proof cases
    case finished
    then show ?thesis by (simp add: batch_loop_done)
  next
    case last
    then show ?thesis by (simp add: batch_loop_last BATCH_SIZE_def)
  next
    case more
    then have lt: "i < length cfgs" by simp
    note IH = "1.IH" [OF lt]
    from more obtain b evs where nxt: "batch_loop (i + BATCH_SIZE) cfgs = FetchBatch b # evs"
      using batch_loop_next_nonempty [of "i + BATCH_SIZE" cfgs] by blast
    have split: "take BATCH_SIZE (drop i cfgs) @ drop (i + BATCH_SIZE) cfgs = drop i cfgs"
      by (metis add.commute append_take_drop_id drop_drop)
    have len: "length (take BATCH_SIZE (drop i cfgs)) = BATCH_SIZE"
      using more by simp
    have c1: "concat (batches_of (batch_loop i cfgs)) = drop i cfgs"
      using IH split by (simp add: batch_loop_more [OF more])
    have c2: "\<forall>b\<in>set (batches_of (batch_loop i cfgs)). b \<noteq> [] \<and> length b \<le> BATCH_SIZE"
      using IH len more by (auto simp: batch_loop_more [OF more] BATCH_SIZE_def)
    have ne: "batches_of (batch_loop (i + BATCH_SIZE) cfgs) \<noteq> []"
      by (simp add: nxt)
    have IH3: "\<forall>b\<in>set (butlast (batches_of (batch_loop (i + BATCH_SIZE) cfgs))). length b = BATCH_SIZE"
      using IH by blast
    have c3: "\<forall>b\<in>set (butlast (batches_of (batch_loop i cfgs))). length b = BATCH_SIZE"
      using IH3 len ne by (simp add: batch_loop_more [OF more])
    have IH4: "batch_loop (i + BATCH_SIZE) cfgs
        = intersperse (Pause BATCH_DELAY) (map FetchBatch (batches_of (batch_loop (i + BATCH_SIZE) cfgs)))"
      using IH by blast
    obtain b' bs' where bs: "batches_of (batch_loop (i + BATCH_SIZE) cfgs) = b' # bs'"
      using ne by (cases "batches_of (batch_loop (i + BATCH_SIZE) cfgs)") auto
    have c4: "batch_loop i cfgs = intersperse (Pause BATCH_DELAY) (map FetchBatch (batches_of (batch_loop i cfgs)))"
      using IH4 [symmetric] by (simp add: batch_loop_more [OF more] bs)
    from c1 c2 c3 c4 show ?thesis by blast
  qed
qed

text \<open>
  C5. The batches of a load, concatenated, are the feed configurations in order; no
  batch is empty or longer than three; every batch but the last has exactly three; and
  the events are the batches with one pause of \<open>BATCH_DELAY\<close> between two of them and
  none at the end.
\<close>

theorem batches_of_three:
  "concat (batches_of (batch_loop 0 feedConfigs)) = feedConfigs
   \<and> (\<forall>b\<in>set (batches_of (batch_loop 0 feedConfigs)). b \<noteq> [] \<and> length b \<le> 3)
   \<and> (\<forall>b\<in>set (butlast (batches_of (batch_loop 0 feedConfigs))). length b = 3)
   \<and> batch_loop 0 feedConfigs
       = intersperse (Pause 100) (map FetchBatch (batches_of (batch_loop 0 feedConfigs)))"
  using batch_loop_props [of 0 feedConfigs] by (simp add: BATCH_SIZE_def BATCH_DELAY_def)

theorem batches_of_three_witness:
  "batch_loop 0 (map (\<lambda>n. sample_config n ''tech'') [''a'', ''b'', ''c'', ''d'', ''e'', ''f'', ''g''])
     = [FetchBatch (map (\<lambda>n. sample_config n ''tech'') [''a'', ''b'', ''c'']), Pause 100,
        FetchBatch (map (\<lambda>n. sample_config n ''tech'') [''d'', ''e'', ''f'']), Pause 100,
        FetchBatch (map (\<lambda>n. sample_config n ''tech'') [''g''])]
   \<and> concat (batches_of (batch_loop 0
         (map (\<lambda>n. sample_config n ''tech'') [''a'', ''b'', ''c'', ''d'', ''e'', ''f'', ''g''])))
     = map (\<lambda>n. sample_config n ''tech'') [''a'', ''b'', ''c'', ''d'', ''e'', ''f'', ''g'']"
proof -
  let ?cfgs = "map (\<lambda>n. sample_config n ''tech'') [''a'', ''b'', ''c'', ''d'', ''e'', ''f'', ''g'']"
  have run: "batch_loop 0 ?cfgs
     = [FetchBatch (map (\<lambda>n. sample_config n ''tech'') [''a'', ''b'', ''c'']), Pause 100,
        FetchBatch (map (\<lambda>n. sample_config n ''tech'') [''d'', ''e'', ''f'']), Pause 100,
        FetchBatch (map (\<lambda>n. sample_config n ''tech'') [''g''])]"
    by (simp add: batch_loop.simps BATCH_SIZE_def BATCH_DELAY_def js_slice_def)
  from batches_of_three [of ?cfgs] have "concat (batches_of (batch_loop 0 ?cfgs)) = ?cfgs"
    by (rule conjunct1)
  with run show ?thesis by (rule conjI)
qed

section \<open>Properties of \<open>stripHtml\<close>\<close>

lemma set_replace_tags: "set (replace_tags s) \<subseteq> set s"
proof (induction s rule: replace_tags.induct)
  case 1
  show ?case by simp
next
  case (2 c cs)
  have "set (tl (dropWhile (\<lambda>d. d \<noteq> CHR ''>'') cs)) \<subseteq> set cs"
  proof
    fix x assume "x \<in> set (tl (dropWhile (\<lambda>d. d \<noteq> CHR ''>'') cs))"
    then have "x \<in> set (dropWhile (\<lambda>d. d \<noteq> CHR ''>'') cs)"
      by (cases "dropWhile (\<lambda>d. d \<noteq> CHR ''>'') cs") simp_all
    then show "x \<in> set cs" by (rule set_dropWhileD)
  qed
  with 2 show ?case by auto
qed

lemma tagged_iff:
  "tagged s = (\<exists>i j. i < j \<and> j < length s \<and> s ! i = CHR ''<'' \<and> s ! j = CHR ''>'')"
proof (induction s)
  case Nil
  show ?case by simp
next
  case (Cons c cs)
  show ?case (is "?L = ?R")
  proof
    assume ?L
    then consider "c = CHR ''<''" "CHR ''>'' \<in> set cs" | "tagged cs" by auto
    then show ?R
    proof cases
      case 1
      then obtain k where "k < length cs" "cs ! k = CHR ''>''" by (auto simp: in_set_conv_nth)
      with 1 have "0 < Suc k \<and> Suc k < length (c # cs) \<and> (c # cs) ! 0 = CHR ''<'' \<and> (c # cs) ! Suc k = CHR ''>''"
        by simp
      then show ?thesis by blast
    next
      case 2
      with Cons.IH obtain i j where "i < j" "j < length cs" "cs ! i = CHR ''<''" "cs ! j = CHR ''>''"
        by blast
      then have "Suc i < Suc j \<and> Suc j < length (c # cs) \<and> (c # cs) ! Suc i = CHR ''<'' \<and> (c # cs) ! Suc j = CHR ''>''"
        by simp
      then show ?thesis by blast
    qed
  next
    assume ?R
    then obtain i j where ij: "i < j" "j < length (c # cs)" "(c # cs) ! i = CHR ''<''" "(c # cs) ! j = CHR ''>''"
      by blast
    show ?L
    proof (cases i)
      case 0
      with ij obtain j' where "j = Suc j'" by (cases j) auto
      with ij 0 have "c = CHR ''<''" "CHR ''>'' \<in> set cs" by (auto simp: in_set_conv_nth)
      then show ?thesis by simp
    next
      case (Suc i')
      with ij obtain j' where j': "j = Suc j'" by (cases j) auto
      with ij Suc have "i' < j' \<and> j' < length cs \<and> cs ! i' = CHR ''<'' \<and> cs ! j' = CHR ''>''" by simp
      then have "tagged cs" using Cons.IH by blast
      then show ?thesis by simp
    qed
  qed
qed

lemma not_tagged_replace_tags: "\<not> tagged (replace_tags s)"
proof (induction s rule: replace_tags.induct)
  case 1
  show ?case by simp
next
  case (2 c cs)
  show ?case
  proof (cases "c = CHR ''<'' \<and> CHR ''>'' \<in> set cs")
    case True
    with 2 show ?thesis by simp
  next
    case False
    with 2 have IH: "\<not> tagged (replace_tags cs)" by simp
    from False have "c = CHR ''<'' \<Longrightarrow> CHR ''>'' \<notin> set (replace_tags cs)"
      using set_replace_tags [of cs] by auto
    with False IH show ?thesis by auto
  qed
qed

lemma tagged_mono_suffix: "tagged ys \<Longrightarrow> tagged (xs @ ys)"
  by (induction xs) auto

lemma tagged_mono_prefix: "tagged xs \<Longrightarrow> tagged (xs @ ys)"
  by (induction xs) auto

lemma trim_infix: "\<exists>pre post. s = pre @ trim s @ post"
proof -
  let ?d = "dropWhile js_space s"
  have a: "s = takeWhile js_space s @ ?d" by simp
  have "rev (takeWhile js_space (rev ?d) @ dropWhile js_space (rev ?d)) = ?d"
    by (simp only: takeWhile_dropWhile_id rev_rev_ident)
  then have "?d = trim s @ rev (takeWhile js_space (rev ?d))"
    by (simp only: rev_append trim_def)
  with a have "s = takeWhile js_space s @ trim s @ rev (takeWhile js_space (rev ?d))" by simp
  then show ?thesis by blast
qed

lemma not_tagged_trim: "\<not> tagged s \<Longrightarrow> \<not> tagged (trim s)"
proof
  assume n: "\<not> tagged s" and t: "tagged (trim s)"
  obtain pre post where s: "s = pre @ trim s @ post" using trim_infix by blast
  from t have "tagged (trim s @ post)" by (rule tagged_mono_prefix)
  then have "tagged (pre @ trim s @ post)" by (rule tagged_mono_suffix)
  with s n show False by simp
qed

text \<open>
  C7. The result of \<open>stripHtml\<close> has no \<open><\<close> with a \<open>>\<close> at a later position, and
  \<open>stripHtml\<close> of \<open>null\<close> and of the empty string is the empty string.
\<close>

theorem stripHtml_no_tag:
  "\<not> (\<exists>i j. i < j \<and> j < length (stripHtml html) \<and> stripHtml html ! i = CHR ''<''
            \<and> stripHtml html ! j = CHR ''>'')
   \<and> stripHtml None = [] \<and> stripHtml (Some []) = []"
proof -
  have "\<not> tagged (stripHtml html)"
    by (cases html) (simp_all add: stripHtml_def not_tagged_trim not_tagged_replace_tags)
  then show ?thesis by (simp add: tagged_iff stripHtml_def)
qed

section \<open>Properties of the categories\<close>

lemma categories_loop_inv:
  "map_wf u m \<Longrightarrow>
   map_wf u (categories_loop u m n feeds)
   \<and> fst ` set (categories_loop u m n feeds) = fst ` set m \<union> cfg_category ` set feeds"
proof (induction feeds arbitrary: m n)
  case Nil
  then show ?case by simp
next
  case (Cons f feeds)
  show ?case
  proof (cases "map_of m (cfg_category f) = None")
    case True
    then have notin: "cfg_category f \<notin> fst ` set m" by (simp add: map_of_eq_None_iff)
    let ?m = "m @ [(cfg_category f, new_category u (cfg_category f) n)]"
    have "map_wf u ?m" using Cons.prems notin by (auto simp: map_wf_def new_category_def)
    from Cons.IH [OF this, of "n + 1"] True show ?thesis by auto
  next
    case False
    then have "cfg_category f \<in> fst ` set m" by (simp add: map_of_eq_None_iff)
    with Cons.IH [OF Cons.prems, of n] False show ?thesis by auto
  qed
qed

lemma categories_loop_indexed_inv:
  "map_wf u m \<Longrightarrow>
   map_wf u (categories_loop_indexed u m n feeds)
   \<and> fst ` set (categories_loop_indexed u m n feeds) = fst ` set m \<union> cfg_category ` set feeds"
proof (induction feeds arbitrary: m n)
  case Nil
  then show ?case by simp
next
  case (Cons f feeds)
  show ?case
  proof (cases "map_of m (cfg_category f) = None")
    case True
    then have notin: "cfg_category f \<notin> fst ` set m" by (simp add: map_of_eq_None_iff)
    let ?m = "m @ [(cfg_category f, new_category u (cfg_category f) n)]"
    have "map_wf u ?m" using Cons.prems notin by (auto simp: map_wf_def new_category_def)
    from Cons.IH [OF this, of "n + 1"] True show ?thesis by auto
  next
    case False
    then have "cfg_category f \<in> fst ` set m" by (simp add: map_of_eq_None_iff)
    with Cons.IH [OF Cons.prems, of "n + 1"] False show ?thesis by auto
  qed
qed

lemma map_wf_names: "map_wf u m \<Longrightarrow> map cat_name (map snd m) = map fst m"
  by (induction m) (auto simp: map_wf_def)

lemma map_wf_ids: "map_wf u m \<Longrightarrow> map cat_id (map snd m) = map (category_id u) (map fst m)"
  by (induction m) (auto simp: map_wf_def)

lemma categories_of_map:
  assumes "map_wf u m" and "fst ` set m = cfg_category ` set feeds"
  shows "distinct (map cat_name (map snd m))
   \<and> set (map cat_name (map snd m)) = cfg_category ` set feeds
   \<and> (\<forall>c\<in>set (map snd m). cat_id c = category_id u (cat_name c))
   \<and> distinct (map cat_id (map snd m)) = inj_on (category_id u) (cfg_category ` set feeds)
   \<and> (\<forall>c\<in>set (map snd m). feedConfigsFor u (cat_id c) feeds
         = filter (\<lambda>f. \<exists>c'\<in>set (map snd m). cat_id c' = cat_id c \<and> cfg_category f = cat_name c') feeds)
   \<and> (inj_on (category_id u) (cfg_category ` set feeds) \<longrightarrow>
        (\<forall>c\<in>set (map snd m). feedConfigsFor u (cat_id c) feeds = filter (\<lambda>f. cfg_category f = cat_name c) feeds))"
proof -
  have names: "map cat_name (map snd m) = map fst m" by (rule map_wf_names [OF assms(1)])
  have ids: "map cat_id (map snd m) = map (category_id u) (map fst m)" by (rule map_wf_ids [OF assms(1)])
  have d: "distinct (map fst m)" using assms(1) by (simp add: map_wf_def)
  have c1: "distinct (map cat_name (map snd m))" unfolding names by (rule d)
  have c2: "set (map cat_name (map snd m)) = cfg_category ` set feeds"
    unfolding names using assms(2) by simp
  have c3: "\<forall>c\<in>set (map snd m). cat_id c = category_id u (cat_name c)"
    using assms(1) by (auto simp: map_wf_def)
  have c4: "distinct (map cat_id (map snd m)) = inj_on (category_id u) (cfg_category ` set feeds)"
    using d assms(2) [symmetric] by (simp only: ids distinct_map) simp
  have c5: "feedConfigsFor u (cat_id c) feeds
         = filter (\<lambda>f. \<exists>c'\<in>set (map snd m). cat_id c' = cat_id c \<and> cfg_category f = cat_name c') feeds"
    if c: "c \<in> set (map snd m)" for c
    unfolding feedConfigsFor_def
  proof (rule filter_cong [OF refl])
    fix f assume f: "f \<in> set feeds"
    show "(category_id u (cfg_category f) = cat_id c)
          = (\<exists>c'\<in>set (map snd m). cat_id c' = cat_id c \<and> cfg_category f = cat_name c')"
    proof
      assume eq: "category_id u (cfg_category f) = cat_id c"
      from f have "cfg_category f \<in> set (map cat_name (map snd m))" unfolding c2 by simp
      then have "cfg_category f \<in> cat_name ` set (map snd m)" by (simp only: set_map)
      then obtain c' where c': "c' \<in> set (map snd m)" "cat_name c' = cfg_category f" by force
      from c'(1) c3 have "cat_id c' = category_id u (cat_name c')" by blast
      with c' eq show "\<exists>c'\<in>set (map snd m). cat_id c' = cat_id c \<and> cfg_category f = cat_name c'"
        by auto
    next
      assume "\<exists>c'\<in>set (map snd m). cat_id c' = cat_id c \<and> cfg_category f = cat_name c'"
      then obtain c' where c': "c' \<in> set (map snd m)" "cat_id c' = cat_id c" "cfg_category f = cat_name c'"
        by blast
      from c'(1) c3 have "cat_id c' = category_id u (cat_name c')" by blast
      with c' show "category_id u (cfg_category f) = cat_id c" by simp
    qed
  qed
  have c6: "feedConfigsFor u (cat_id c) feeds = filter (\<lambda>f. cfg_category f = cat_name c) feeds"
    if inj: "inj_on (category_id u) (cfg_category ` set feeds)" and c: "c \<in> set (map snd m)" for c
  proof -
    from c c3 have idc: "cat_id c = category_id u (cat_name c)" by blast
    from c have "cat_name c \<in> set (map cat_name (map snd m))" by auto
    with c2 have mem: "cat_name c \<in> cfg_category ` set feeds" by simp
    show ?thesis
      unfolding feedConfigsFor_def idc
      by (rule filter_cong [OF refl]) (use inj mem in \<open>auto dest: inj_onD\<close>)
  qed
  from c1 c2 c3 c4 c5 c6 show ?thesis by blast
qed

lemma category_id_ex1: "category_id u ''Tech News'' = ''tech-news''" by code_simp
lemma category_id_ex2: "category_id u ''World'' = ''world''" by code_simp
lemma category_id_ex3: "category_id u ''tech  news'' = ''tech-news''" by code_simp

text \<open>White space outside ASCII is white space, and a run at the end gives a hyphen.\<close>

lemma category_id_examples:
  "category_id u ''Tech News '' = ''tech-news-''"
  "replace_spaces [CHR ''t'', CHR 0xC2, CHR 0xA0, CHR 0x20, CHR 0xE3, CHR 0x80, CHR 0x80, CHR ''n'']
     = ''t-n''"
  by code_simp+

text \<open>
  C8, as the code has it. One category is made per raw name, so the names are distinct;
  the id is the normalised name. The ids are distinct exactly when normalisation is
  injective on the raw names of the configuration. The filter of \<open>loadFeedsForCategory\<close>
  selects the configurations of all category entries that have the id: of one entry when
  the ids are distinct. Distinct raw names can have one id.
\<close>

theorem category_ids:
  "(\<forall>cats\<in>{loadCategories u feeds, loadCategories_indexed u feeds}.
     distinct (map cat_name cats)
     \<and> set (map cat_name cats) = cfg_category ` set feeds
     \<and> (\<forall>c\<in>set cats. cat_id c = category_id u (cat_name c))
     \<and> distinct (map cat_id cats) = inj_on (category_id u) (cfg_category ` set feeds)
     \<and> (\<forall>c\<in>set cats. feedConfigsFor u (cat_id c) feeds
           = filter (\<lambda>f. \<exists>c'\<in>set cats. cat_id c' = cat_id c \<and> cfg_category f = cat_name c') feeds)
     \<and> (inj_on (category_id u) (cfg_category ` set feeds) \<longrightarrow>
          (\<forall>c\<in>set cats. feedConfigsFor u (cat_id c) feeds
                           = filter (\<lambda>f. cfg_category f = cat_name c) feeds)))
   \<and> ''Tech News'' \<noteq> ''tech  news''
   \<and> category_id u ''Tech News'' = ''tech-news''
   \<and> category_id u ''tech  news'' = ''tech-news''"
proof -
  have e: "map_wf u []" by (simp add: map_wf_def)
  note a = categories_loop_inv [OF e, of 0 feeds]
  note b = categories_loop_indexed_inv [OF e, of 0 feeds]
  have A: "fst ` set (categories_loop u [] 0 feeds) = cfg_category ` set feeds" using a by simp
  have B: "fst ` set (categories_loop_indexed u [] 0 feeds) = cfg_category ` set feeds" using b by simp
  note ra = categories_of_map [OF conjunct1 [OF a] A, folded loadCategories_def]
  note rb = categories_of_map [OF conjunct1 [OF b] B, folded loadCategories_indexed_def]
  note same = category_id_ex1 [of u] category_id_ex3 [of u]
  have diff: "''Tech News'' \<noteq> ''tech  news''" by simp
  from ra rb have "\<forall>cats\<in>{loadCategories u feeds, loadCategories_indexed u feeds}.
     distinct (map cat_name cats)
     \<and> set (map cat_name cats) = cfg_category ` set feeds
     \<and> (\<forall>c\<in>set cats. cat_id c = category_id u (cat_name c))
     \<and> distinct (map cat_id cats) = inj_on (category_id u) (cfg_category ` set feeds)
     \<and> (\<forall>c\<in>set cats. feedConfigsFor u (cat_id c) feeds
           = filter (\<lambda>f. \<exists>c'\<in>set cats. cat_id c' = cat_id c \<and> cfg_category f = cat_name c') feeds)
     \<and> (inj_on (category_id u) (cfg_category ` set feeds) \<longrightarrow>
          (\<forall>c\<in>set cats. feedConfigsFor u (cat_id c) feeds
                           = filter (\<lambda>f. cfg_category f = cat_name c) feeds))"
    by blast
  with diff same show ?thesis by (intro conjI)
qed

theorem category_ids_witness:
  "map cat_id (loadCategories ascii_names [sample_config ''a'' ''Tech News'', sample_config ''b'' ''World'',
                               sample_config ''c'' ''Tech News'']) = [''tech-news'', ''world'']
   \<and> distinct (map cat_id (loadCategories ascii_names [sample_config ''a'' ''Tech News'',
                               sample_config ''b'' ''World'', sample_config ''c'' ''Tech News'']))
   \<and> inj_on (category_id ascii_names) {''Tech News'', ''World''}
   \<and> feedConfigsFor ascii_names ''tech-news'' [sample_config ''a'' ''Tech News'', sample_config ''b'' ''World'',
                               sample_config ''c'' ''Tech News'']
     = [sample_config ''a'' ''Tech News'', sample_config ''c'' ''Tech News'']"
proof -
  let ?u = ascii_names
  let ?feeds = "[sample_config ''a'' ''Tech News'', sample_config ''b'' ''World'',
                               sample_config ''c'' ''Tech News'']"
  have inj: "inj_on (category_id ?u) (cfg_category ` set ?feeds)"
    by (auto simp: inj_on_def sample_config_def category_id_ex1 category_id_ex2)
  have ids: "map cat_id (loadCategories ?u ?feeds) = [''tech-news'', ''world'']"
    by (simp add: loadCategories_def sample_config_def new_category_def category_id_ex1 category_id_ex2)
  have cfgs: "feedConfigsFor ?u ''tech-news'' ?feeds
     = [sample_config ''a'' ''Tech News'', sample_config ''c'' ''Tech News'']"
    by (simp add: feedConfigsFor_def sample_config_def category_id_ex1 category_id_ex2)
  have mem: "loadCategories ?u ?feeds \<in> {loadCategories ?u ?feeds, loadCategories_indexed ?u ?feeds}"
    by simp
  from category_ids [of ?u ?feeds, THEN conjunct1, THEN bspec, OF mem]
  have "distinct (map cat_id (loadCategories ?u ?feeds)) = inj_on (category_id ?u) (cfg_category ` set ?feeds)"
    by (elim conjE)
  with inj have "distinct (map cat_id (loadCategories ?u ?feeds))" by simp
  moreover have "inj_on (category_id ?u) {''Tech News'', ''World''}"
    using inj by (simp add: sample_config_def insert_commute)
  ultimately show ?thesis using ids cfgs by simp
qed

text \<open>The claim as stated fails: two raw names that differ in case and white space give
  two categories with one id, and the filter selects the configurations of both.\<close>

theorem category_ids_counterexample:
  "map cat_id (loadCategories ascii_names [sample_config ''a'' ''Tech News'', sample_config ''b'' ''tech  news''])
     = [''tech-news'', ''tech-news'']
   \<and> map cat_name (loadCategories ascii_names [sample_config ''a'' ''Tech News'', sample_config ''b'' ''tech  news''])
     = [''Tech News'', ''tech  news'']
   \<and> feedConfigsFor ascii_names ''tech-news'' [sample_config ''a'' ''Tech News'', sample_config ''b'' ''tech  news'']
     = [sample_config ''a'' ''Tech News'', sample_config ''b'' ''tech  news'']"
  by (simp add: loadCategories_def sample_config_def new_category_def category_id_ex1 category_id_ex3 feedConfigsFor_def)

section \<open>Properties of the category filter\<close>

lemma cached_items_iff: "f \<in> cached_items fbc \<longleftrightarrow> (\<exists>k fs. fbc k = Some fs \<and> f \<in> set fs)"
  by (auto simp: cached_items_def ran_def)

lemma keyed_items:
  assumes "keyed_by_category fbc"
  shows "set (case fbc c of Some fs \<Rightarrow> fs | None \<Rightarrow> []) = {f \<in> cached_items fbc. cat_id (category f) = c}"
proof (cases "fbc c")
  case None
  have "\<not> (f \<in> cached_items fbc \<and> cat_id (category f) = c)" for f
  proof
    assume a: "f \<in> cached_items fbc \<and> cat_id (category f) = c"
    then obtain k fs where k: "fbc k = Some fs" "f \<in> set fs" by (auto simp: cached_items_iff)
    with assms have "cat_id (category f) = k" by (auto simp: keyed_by_category_def)
    with a k None show False by simp
  qed
  with None show ?thesis by auto
next
  case (Some fs)
  have "f \<in> set fs \<longleftrightarrow> f \<in> cached_items fbc \<and> cat_id (category f) = c" for f
  proof
    assume "f \<in> set fs"
    with Some assms show "f \<in> cached_items fbc \<and> cat_id (category f) = c"
      by (auto simp: cached_items_iff keyed_by_category_def)
  next
    assume a: "f \<in> cached_items fbc \<and> cat_id (category f) = c"
    then obtain k gs where k: "fbc k = Some gs" "f \<in> set gs" by (auto simp: cached_items_iff)
    with assms have "cat_id (category f) = k" by (auto simp: keyed_by_category_def)
    with a k Some show "f \<in> set fs" by simp
  qed
  with Some show ?thesis by auto
qed

lemma cached_or_empty_list:
  "js_read fbc c \<noteq> Inherited \<Longrightarrow>
   cached_or_empty fbc c = Feeds (case fbc c of Some fs \<Rightarrow> fs | None \<Rightarrow> [])"
  by (auto simp: cached_or_empty_def js_read_def split: option.splits if_splits)

lemma keyed_lookup:
  assumes "keyed_by_category fbc" and "js_read fbc c \<noteq> Inherited"
  shows "\<exists>fs. cached_or_empty fbc c = Feeds fs
           \<and> set fs = {f \<in> cached_items fbc. cat_id (category f) = c}"
  using keyed_items [OF assms(1), of c] cached_or_empty_list [OF assms(2)] by simp

lemma all_view:
  assumes "set ownKeys = dom fbc"
  shows "set (concat (object_values ownKeys fbc)) = cached_items fbc"
proof -
  have "f \<in> set (concat (object_values ownKeys fbc)) \<longleftrightarrow> f \<in> cached_items fbc" for f
  proof
    assume "f \<in> set (concat (object_values ownKeys fbc))"
    then obtain k where k: "k \<in> set ownKeys" "f \<in> set (the (fbc k))"
      by (auto simp: object_values_def)
    with assms obtain fs where "fbc k = Some fs" by auto
    with k show "f \<in> cached_items fbc" by (auto simp: cached_items_iff)
  next
    assume "f \<in> cached_items fbc"
    then obtain k fs where k: "fbc k = Some fs" "f \<in> set fs" by (auto simp: cached_items_iff)
    with assms have "k \<in> set ownKeys" by auto
    with k show "f \<in> set (concat (object_values ownKeys fbc))"
      by (auto simp: object_values_def intro!: bexI [of _ k])
  qed
  then show ?thesis by blast
qed

text \<open>What is shown for a selected id that is not stored and names an inherited member
  is that member.\<close>

lemma inherited_view:
  "currentFeeds (Some ''constructor'') Map.empty = InheritedMember"
  "filteredFeeds (Some ''toString'') [] Map.empty = InheritedMember"
  "groupedFeeds_of (currentFeeds (Some ''constructor'') Map.empty) = Inl TypeError"
  by (simp_all add: currentFeeds_def filteredFeeds_def cached_or_empty_def js_read_def truthy_def
      object_prototype_names_def groupedFeeds_of_def)

subsection \<open>The cache stays keyed by category\<close>

lemma set_insert_by: "set (insert_by cmp x ys) = insert x (set ys)"
  by (induction ys) auto

lemma set_js_sort: "set (js_sort cmp xs) = set xs"
  by (induction xs) (simp_all add: js_sort_def set_insert_by)

lemma mset_insert_by: "mset (insert_by cmp x ys) = add_mset x (mset ys)"
  by (induction ys) auto

lemma mset_js_sort: "mset (js_sort cmp xs) = mset xs"
  by (induction xs) (simp_all add: js_sort_def mset_insert_by)

lemma set_unique_loop: "set (unique_loop S [] xs) \<subseteq> set xs"
proof (induction xs arbitrary: S)
  case Nil
  show ?case by simp
next
  case (Cons x xs)
  show ?case
    using Cons.IH [of "insert (link x) S"] Cons.IH [of S]
      unique_loop_append [of "insert (link x) S" "[x]" xs]
    by auto
qed

lemma keyed_addFeedsToCategory:
  assumes "keyed_by_category prev" and "\<forall>f\<in>set newFeeds. cat_id (category f) = categoryId"
  shows "keyed_by_category (addFeedsToCategory categoryId newFeeds prev)"
proof -
  have "cat_id (category f) = categoryId"
    if "f \<in> set (unique_loop {} [] ((case prev categoryId of Some fs \<Rightarrow> fs | None \<Rightarrow> []) @ newFeeds))" for f
  proof -
    from that set_unique_loop
    have mem: "f \<in> set ((case prev categoryId of Some fs \<Rightarrow> fs | None \<Rightarrow> []) @ newFeeds)" by blast
    show ?thesis
    proof (cases "prev categoryId")
      case None
      with mem assms(2) show ?thesis by simp
    next
      case (Some fs)
      with mem assms show ?thesis by (auto simp: keyed_by_category_def)
    qed
  qed
  then show ?thesis
    using assms(1) by (auto simp: keyed_by_category_def addFeedsToCategory_def)
qed

lemma keyed_clear:
  "keyed_by_category prev \<Longrightarrow> keyed_by_category (clearCategoryFeeds categoryId prev)"
  "keyed_by_category (clearAllFeeds prev)"
  by (auto simp: keyed_by_category_def clearCategoryFeeds_def clearAllFeeds_def)

lemma keyed_empty: "keyed_by_category Map.empty"
  by (simp add: keyed_by_category_def)

text \<open>\<open>App.tsx\<close>: a load that finishes, a whole load, and a refresh.\<close>

lemma keyed_finish_load:
  assumes "keyed_by_category (feedsByCategory s)" and "\<forall>f\<in>set fs. cat_id (category f) = c"
  shows "keyed_by_category (feedsByCategory (finish_load s (c, fs)))"
  using assms by (auto simp: keyed_by_category_def finish_load_def)

lemma keyed_finish_loads:
  assumes "keyed_by_category (feedsByCategory s)"
    and "\<forall>(c, fs)\<in>set others. \<forall>f\<in>set fs. cat_id (category f) = c"
  shows "keyed_by_category (feedsByCategory (foldl finish_load s others))"
  using assms
proof (induction others arbitrary: s)
  case Nil
  then show ?case by simp
next
  case (Cons e others)
  obtain c fs where e: "e = (c, fs)" by (cases e)
  from Cons.prems(2) e have "\<forall>f\<in>set fs. cat_id (category f) = c" by simp
  with Cons.prems(1) have "keyed_by_category (feedsByCategory (finish_load s (c, fs)))"
    by (rule keyed_finish_load)
  moreover from Cons.prems(2) have "\<forall>(c, fs)\<in>set others. \<forall>f\<in>set fs. cat_id (category f) = c" by simp
  ultimately show ?case using Cons.IH e by simp
qed

lemma keyed_loadFeedsForCategory:
  assumes "keyed_by_category (feedsByCategory s)"
    and "\<forall>i feedConfig cat fs. fetched i feedConfig cat = Some fs \<longrightarrow> (\<forall>f\<in>set fs. category f = cat)"
    and "\<forall>(c, fs)\<in>set others. \<forall>f\<in>set fs. cat_id (category f) = c"
  shows "keyed_by_category (feedsByCategory (loadFeedsForCategory u fetched others categoryId s))"
proof (cases "rssConfig s")
  case None
  with assms(1) show ?thesis by (simp add: loadFeedsForCategory_def)
next
  case (Some feeds)
  show ?thesis
  proof (cases "find (\<lambda>c. cat_id c = categoryId) (categories s)")
    case None
    with Some assms(1) show ?thesis by (simp add: loadFeedsForCategory_def)
  next
    case (Some cat)
    then have idc: "cat_id cat = categoryId" by (auto simp: find_Some_iff)
    let ?s1 = "s\<lparr>loading := True, error := None\<rparr>"
    let ?s2 = "foldl finish_load ?s1 others"
    let ?feedConfigs = "feedConfigsFor u categoryId feeds"
    let ?results = "map (\<lambda>(i, feedConfig). fetched i feedConfig cat) (zip [0..<length ?feedConfigs] ?feedConfigs)"
    let ?all = "js_sort compare_pubDate (concat (map (\<lambda>result. case result of Some v \<Rightarrow> v | None \<Rightarrow> []) ?results))"
    have st: "loadFeedsForCategory u fetched others categoryId s = finish_load ?s2 (categoryId, ?all)"
      using Some \<open>rssConfig s = Some feeds\<close> by (simp add: loadFeedsForCategory_def Let_def)
    have k2: "keyed_by_category (feedsByCategory ?s2)"
      by (rule keyed_finish_loads) (use assms(1,3) in simp_all)
    have "cat_id (category f) = categoryId" if "f \<in> set ?all" for f
    proof -
      from that obtain r where r: "r \<in> set ?results" "f \<in> set (case r of Some v \<Rightarrow> v | None \<Rightarrow> [])"
        by (auto simp: set_js_sort)
      then obtain fs where fs: "r = Some fs" "f \<in> set fs" by (cases r) auto
      from r(1) obtain i feedConfig where "r = fetched i feedConfig cat" by auto
      with fs have "fetched i feedConfig cat = Some fs" by simp
      with assms(2) have "\<forall>f\<in>set fs. category f = cat" by (elim allE impE) assumption
      from this fs(2) have "category f = cat" by (rule bspec)
      with idc show ?thesis by simp
    qed
    then have "\<forall>f\<in>set ?all. cat_id (category f) = categoryId" by blast
    with k2 show ?thesis unfolding st by (rule keyed_finish_load)
  qed
qed

lemma keyed_handleRefresh:
  assumes "\<forall>i feedConfig cat fs. fetched i feedConfig cat = Some fs \<longrightarrow> (\<forall>f\<in>set fs. category f = cat)"
    and "\<forall>(c, fs)\<in>set others. \<forall>f\<in>set fs. cat_id (category f) = c"
  shows "keyed_by_category (feedsByCategory (handleRefresh u fetched others s))"
proof -
  let ?s0 = "s\<lparr>feedsByCategory := Map.empty\<rparr>"
  have k0: "keyed_by_category (feedsByCategory ?s0)" by (simp add: keyed_empty)
  have "keyed_by_category (feedsByCategory (loadFeedsForCategory u fetched others c ?s0))" for c
    by (rule keyed_loadFeedsForCategory [OF k0 assms])
  with k0 show ?thesis by (simp add: handleRefresh_def loadAllFeeds_def Let_def)
qed

text \<open>The hook variants: a step, a load, and a refresh.\<close>

lemma keyed_fetch_step:
  assumes "keyed_by_category (h_feedsByCategory s)" and "carries_category st"
  shows "keyed_by_category (h_feedsByCategory (fetch_step_hook s st))"
proof (cases st)
  case (StartFetch feedConfig)
  with assms(1) show ?thesis by simp
next
  case (FinishFetch c feedConfig result)
  show ?thesis
  proof (cases result)
    case None
    with FinishFetch assms(1) show ?thesis by simp
  next
    case (Some r)
    with FinishFetch assms(2) have "\<forall>f\<in>set r. cat_id (category f) = c" by (simp add: list_all_iff)
    with assms(1) have "keyed_by_category (addFeedsToCategory c r (h_feedsByCategory s))"
      by (rule keyed_addFeedsToCategory)
    with FinishFetch Some assms(1) show ?thesis by simp
  qed
next
  case (FinishCustomFeed result)
  show ?thesis
  proof (cases result)
    case None
    with FinishCustomFeed assms(1) show ?thesis by simp
  next
    case (Some r)
    with FinishCustomFeed assms(2) have "\<forall>f\<in>set r. cat_id (category f) = ''custom''"
      by (simp add: list_all_iff)
    with assms(1) have "keyed_by_category (addFeedsToCategory ''custom'' r (h_feedsByCategory s))"
      by (rule keyed_addFeedsToCategory)
    with FinishCustomFeed Some assms(1) show ?thesis by simp
  qed
qed

lemma keyed_fetch_steps:
  assumes "keyed_by_category (h_feedsByCategory s)" and "list_all carries_category steps"
  shows "keyed_by_category (h_feedsByCategory (foldl fetch_step_hook s steps))"
  using assms
proof (induction steps arbitrary: s)
  case Nil
  then show ?case by simp
next
  case (Cons st steps)
  from Cons.prems have "keyed_by_category (h_feedsByCategory (fetch_step_hook s st))"
    by (simp add: keyed_fetch_step)
  with Cons.IH Cons.prems(2) show ?case by simp
qed

lemma keyed_loadFeedsForCategory_hook:
  assumes "keyed_by_category (h_feedsByCategory s)" and "list_all carries_category steps"
  shows "keyed_by_category (h_feedsByCategory (loadFeedsForCategory_hook g steps categoryId s))"
proof -
  let ?s1 = "resetLoadingState (s\<lparr>h_error := None,
     h_feedsByCategory := clearCategoryFeeds categoryId (h_feedsByCategory s)\<rparr>)"
  have k1: "keyed_by_category (h_feedsByCategory ?s1)"
    using keyed_clear(1) [OF assms(1), of categoryId] by (simp add: resetLoadingState_def)
  have k2: "keyed_by_category (h_feedsByCategory (foldl fetch_step_hook ?s1 steps))"
    by (rule keyed_fetch_steps [OF k1 assms(2)])
  from k1 have k3: "keyed_by_category (h_feedsByCategory (?s1\<lparr>h_error := Some category_missing\<rparr>))"
    by simp
  show ?thesis
    using assms(1) k2 k3
    by (simp add: loadFeedsForCategory_hook_def Let_def split: option.splits)
qed

lemma keyed_handleRefresh_hook:
  assumes "list_all carries_category steps"
  shows "keyed_by_category (h_feedsByCategory (handleRefresh_hook g steps s))"
proof -
  let ?s0 = "(resetLoadingState (s\<lparr>h_feedsByCategory := clearAllFeeds (h_feedsByCategory s)\<rparr>))
                 \<lparr>h_isSorted := False\<rparr>"
  have k0: "keyed_by_category (h_feedsByCategory ?s0)"
    by (simp add: resetLoadingState_def clearAllFeeds_def keyed_empty)
  have "keyed_by_category (h_feedsByCategory (loadFeedsForCategory_hook g steps c ?s0))" for c
    by (rule keyed_loadFeedsForCategory_hook [OF k0 assms])
  with k0 show ?thesis by (simp add: handleRefresh_hook_def Let_def)
qed

lemma keyed_handleSortByTime:
  assumes "keyed_by_category (h_feedsByCategory s)" and "handleSortByTime s = Inr s'"
  shows "keyed_by_category (h_feedsByCategory s')"
proof (cases "truthy (h_selectedCategory s)")
  case False
  with assms show ?thesis by (simp add: handleSortByTime_def)
next
  case True
  then obtain c where sel: "h_selectedCategory s = Some c" by (auto simp: truthy_def split: option.splits)
  from assms(2) True sel obtain stored where
    cur: "cached_or_empty (h_feedsByCategory s) c = Feeds stored"
    and s': "s' = s\<lparr>h_feedsByCategory := (h_feedsByCategory s)(c \<mapsto> js_sort compare_pubDate stored),
                   h_isSorted := True\<rparr>"
    by (auto simp: handleSortByTime_def split: feed_view.splits)
  have "\<forall>f\<in>set stored. cat_id (category f) = c"
    using cur assms(1)
    by (auto simp: cached_or_empty_def js_read_def keyed_by_category_def split: option.splits if_splits)
  with assms(1) show ?thesis
    unfolding s' by (auto simp: keyed_by_category_def set_js_sort)
qed

text \<open>
  C6, as the code has it. A category counts as selected when its id is truthy. Then the
  list shown is exactly the cached items of that category: in the variant that filters the
  flat list \<open>feeds\<close>, and in the variants that read the cache \<open>feedsByCategory\<close>, whose
  lists are stored under the id of their items' category, for an id that is stored or
  names no inherited member. With the empty id selected the flat variant shows all feeds
  and the others show nothing. With \<open>null\<close> selected, the variants with a view of all
  categories show every cached item.
\<close>

theorem category_filter_exact:
  "(truthy sel \<longrightarrow>
      filteredFeeds_flat sel feeds = filter (\<lambda>f. Some (cat_id (category f)) = sel) feeds
      \<and> set (filteredFeeds_flat sel feeds) = {f \<in> set feeds. Some (cat_id (category f)) = sel})
   \<and> (truthy sel \<and> keyed_by_category fbc \<and> js_read fbc (the sel) \<noteq> Inherited \<longrightarrow>
        (\<exists>fs. filteredFeeds sel ownKeys fbc = Feeds fs \<and> currentFeeds sel fbc = Feeds fs
              \<and> set fs = {f \<in> cached_items fbc. Some (cat_id (category f)) = sel}))
   \<and> filteredFeeds_flat (Some []) feeds = feeds
   \<and> filteredFeeds (Some []) ownKeys fbc = Feeds []
   \<and> currentFeeds (Some []) fbc = Feeds []
   \<and> filteredFeeds_flat None feeds = feeds
   \<and> (set ownKeys = dom fbc \<longrightarrow>
        (\<exists>fs. filteredFeeds None ownKeys fbc = Feeds fs \<and> set fs = cached_items fbc))"
proof -
  have a: "filteredFeeds_flat sel feeds = filter (\<lambda>f. Some (cat_id (category f)) = sel) feeds
      \<and> set (filteredFeeds_flat sel feeds) = {f \<in> set feeds. Some (cat_id (category f)) = sel}"
    if "truthy sel"
    using that by (auto simp: filteredFeeds_flat_def)
  have b: "\<exists>fs. filteredFeeds sel ownKeys fbc = Feeds fs \<and> currentFeeds sel fbc = Feeds fs
              \<and> set fs = {f \<in> cached_items fbc. Some (cat_id (category f)) = sel}"
    if t: "truthy sel" and k: "keyed_by_category fbc" and i: "js_read fbc (the sel) \<noteq> Inherited"
  proof -
    from t obtain c where sel: "sel = Some c" by (auto simp: truthy_def split: option.splits)
    from i sel have "js_read fbc c \<noteq> Inherited" by simp
    from keyed_lookup [OF k this] obtain fs where
      fs: "cached_or_empty fbc c = Feeds fs" "set fs = {f \<in> cached_items fbc. cat_id (category f) = c}"
      by blast
    have "filteredFeeds sel ownKeys fbc = Feeds fs" "currentFeeds sel fbc = Feeds fs"
      using t fs(1) by (simp_all add: filteredFeeds_def currentFeeds_def sel)
    moreover have "set fs = {f \<in> cached_items fbc. Some (cat_id (category f)) = sel}"
      using fs(2) sel by simp
    ultimately show ?thesis by blast
  qed
  have c: "filteredFeeds_flat (Some []) feeds = feeds" "filteredFeeds (Some []) ownKeys fbc = Feeds []"
    "currentFeeds (Some []) fbc = Feeds []" "filteredFeeds_flat None feeds = feeds"
    by (simp_all add: filteredFeeds_flat_def filteredFeeds_def currentFeeds_def truthy_def)
  have d: "\<exists>fs. filteredFeeds None ownKeys fbc = Feeds fs \<and> set fs = cached_items fbc"
    if "set ownKeys = dom fbc"
    using all_view [OF that] by (simp add: filteredFeeds_def)
  from a b c d show ?thesis by blast
qed

theorem category_filter_exact_witness:
  "currentFeeds (Some ''tech'')
     [''tech'' \<mapsto> [sample_item ''t1'' ''l1'' ''tech'' ''A'', sample_item ''t2'' ''l2'' ''tech'' ''B''],
      ''news'' \<mapsto> [sample_item ''n1'' ''l3'' ''news'' ''C'']]
   = Feeds [sample_item ''t1'' ''l1'' ''tech'' ''A'', sample_item ''t2'' ''l2'' ''tech'' ''B'']
   \<and> set [sample_item ''t1'' ''l1'' ''tech'' ''A'', sample_item ''t2'' ''l2'' ''tech'' ''B'']
     = {f \<in> cached_items
          [''tech'' \<mapsto> [sample_item ''t1'' ''l1'' ''tech'' ''A'', sample_item ''t2'' ''l2'' ''tech'' ''B''],
           ''news'' \<mapsto> [sample_item ''n1'' ''l3'' ''news'' ''C'']].
        Some (cat_id (category f)) = Some ''tech''}"
proof -
  let ?fbc = "[''tech'' \<mapsto> [sample_item ''t1'' ''l1'' ''tech'' ''A'', sample_item ''t2'' ''l2'' ''tech'' ''B''],
      ''news'' \<mapsto> [sample_item ''n1'' ''l3'' ''news'' ''C'']]"
  have t: "truthy (Some ''tech'')" by (simp add: truthy_def)
  have k: "keyed_by_category ?fbc"
    by (auto simp: keyed_by_category_def sample_item_def sample_category_def split: if_splits)
  have i: "js_read ?fbc (the (Some ''tech'')) \<noteq> Inherited" by (simp add: js_read_def)
  have v: "currentFeeds (Some ''tech'') ?fbc
    = Feeds [sample_item ''t1'' ''l1'' ''tech'' ''A'', sample_item ''t2'' ''l2'' ''tech'' ''B'']"
    by (simp add: currentFeeds_def truthy_def cached_or_empty_def js_read_def)
  from category_filter_exact [of "Some ''tech''" "[]" ?fbc "[]"] t k i
  obtain fs where fs: "currentFeeds (Some ''tech'') ?fbc = Feeds fs"
    "set fs = {f \<in> cached_items ?fbc. Some (cat_id (category f)) = Some ''tech''}"
    by blast
  from fs(1) v have "fs = [sample_item ''t1'' ''l1'' ''tech'' ''A'', sample_item ''t2'' ''l2'' ''tech'' ''B'']"
    by simp
  with fs(2) v show ?thesis by simp
qed

text \<open>
  The claim as stated fails for the category whose id is the empty string. Its items are
  cached under that id, and with it selected the variants that read the cache show
  nothing, while the variant with the flat list shows the items of every category.
\<close>

theorem category_filter_empty_id_counterexample:
  "currentFeeds (Some '''') ['''' \<mapsto> [sample_item ''t1'' ''l1'' '''' ''A'']] = Feeds []
   \<and> filteredFeeds (Some '''') [''''] ['''' \<mapsto> [sample_item ''t1'' ''l1'' '''' ''A'']] = Feeds []
   \<and> cat_id (category (sample_item ''t1'' ''l1'' '''' ''A'')) = ''''
   \<and> filteredFeeds_flat (Some '''')
        [sample_item ''t1'' ''l1'' '''' ''A'', sample_item ''t2'' ''l2'' ''tech'' ''B'']
      = [sample_item ''t1'' ''l1'' '''' ''A'', sample_item ''t2'' ''l2'' ''tech'' ''B'']
   \<and> cat_id (category (sample_item ''t2'' ''l2'' ''tech'' ''B'')) = ''tech''"
  by (simp add: currentFeeds_def filteredFeeds_def filteredFeeds_flat_def truthy_def
      sample_item_def sample_category_def)

section \<open>Properties of the refresh\<close>

subsection \<open>\<open>App.tsx\<close>\<close>











subsection \<open>The hook variants\<close>















section \<open>Properties of \<open>fetchRSSFeed\<close>\<close>

text \<open>
  What holds of every result: it is \<open>null\<close> when the fetch fails, the response is not
  \<open>ok\<close>, the body is not JSON or no items are found; and every item of a result that is
  not \<open>null\<close> has a truthy title and link, a description without a complete tag, the
  category passed in and the name of the feed.
\<close>

lemma js_or_truthy: "js_truthy b \<Longrightarrow> js_truthy (js_or a b)"
  by (simp add: js_or_def)

lemma text_of_truthy: "js_truthy v \<Longrightarrow> js_truthy fallback \<Longrightarrow> js_truthy (text_of v fallback)"
  by (simp add: text_of_def js_or_def)

lemma truthy_defaults: "no_title \<noteq> []" "no_description \<noteq> []"
  by (simp_all add: no_title_def no_description_def)

lemma stripHtml_js_not_tagged: "stripHtml_js v = Inr s \<Longrightarrow> \<not> tagged s"
proof (cases v)
  case (JStr h)
  assume "stripHtml_js v = Inr s"
  with JStr have s: "s = stripHtml (Some h)" by simp
  have "\<not> tagged (stripHtml (Some h))"
    by (simp add: stripHtml_def not_tagged_trim not_tagged_replace_tags)
  with s show ?thesis by simp
qed (auto split: if_splits)

lemma map_item_fields:
  assumes "map_item newDate now feedConfig cat feedTitle index item = Inr it"
  shows "js_truthy (f_title it) \<and> js_truthy (f_link it) \<and> \<not> tagged (f_description it)
         \<and> f_category it = cat \<and> f_feedName it = cfg_label feedConfig
         \<and> f_id it = generateId now (cfg_label feedConfig) index"
proof -
  from assms obtain item_title stripped where
    d: "stripHtml_js (text_of (js_or (js_or (js_or (js_opt_get item ''description'') (js_opt_get item ''content''))
                                          (js_opt_get item ''summary'')) (JStr no_description)) (JStr no_description)) = Inr stripped"
    and it: "f_title it = text_of (js_or (js_or item_title (js_opt_get item ''name'')) (JStr no_title)) (JStr no_title)"
      "f_link it = text_of (js_or (js_or (js_opt_get item ''link'') (js_opt_get item ''url'')) (JStr ''#'')) (JStr ''#'')"
      "f_description it = stripped" "f_category it = cat" "f_feedName it = cfg_label feedConfig"
      "f_id it = generateId now (cfg_label feedConfig) index"
    by (auto simp: map_item_def Let_def split: sum.splits)
  show ?thesis
    using it stripHtml_js_not_tagged [OF d]
    by (simp add: text_of_truthy js_or_truthy truthy_defaults)
qed

lemma map_items_elems:
  "map_items f index xs = Inr ys \<Longrightarrow>
   length ys = length xs \<and> (\<forall>j<length ys. f (index + j) (xs ! j) = Inr (ys ! j))"
proof (induction xs arbitrary: index ys)
  case Nil
  then show ?case by simp
next
  case (Cons x xs)
  from Cons.prems obtain y ys' where y: "f index x = Inr y" and r: "map_items f (index + 1) xs = Inr ys'"
    and ys: "ys = y # ys'"
    by (auto split: sum.splits)
  from Cons.IH [OF r] have len: "length ys' = length xs"
    and el: "\<forall>j<length ys'. f (index + 1 + j) (xs ! j) = Inr (ys' ! j)" by auto
  have "f (index + j) ((x # xs) ! j) = Inr (ys ! j)" if "j < length ys" for j
  proof (cases j)
    case 0
    with y ys show ?thesis by simp
  next
    case (Suc k)
    with that ys have "k < length ys'" by simp
    with el have "f (index + 1 + k) (xs ! k) = Inr (ys' ! k)" by blast
    with Suc ys show ?thesis by simp
  qed
  with len ys show ?case by simp
qed

lemma fetchRSSFeed_Some:
  assumes "fetchRSSFeed newDate now feedConfig cat outcome = Some its"
  shows "\<exists>status data xs feedTitle.
           outcome = Responded True status (Some data) \<and> detect_shape data = Inr (JArr xs, feedTitle)
           \<and> xs \<noteq> [] \<and> map_items (map_item newDate now feedConfig cat feedTitle) 0 xs = Inr its"
  using assms
  by (auto simp: fetchRSSFeed_def split: fetch_outcome.splits if_splits option.splits sum.splits
      prod.splits jsval.splits)

lemma fetchRSSFeed_items:
  assumes "fetchRSSFeed newDate now feedConfig cat outcome = Some its"
  shows "its \<noteq> [] \<and> (\<forall>it\<in>set its.
           js_truthy (f_title it) \<and> js_truthy (f_link it) \<and> \<not> tagged (f_description it)
           \<and> f_category it = cat \<and> f_feedName it = cfg_label feedConfig)"
proof -
  from fetchRSSFeed_Some [OF assms] obtain xs feedTitle where
    ne: "xs \<noteq> []" and m: "map_items (map_item newDate now feedConfig cat feedTitle) 0 xs = Inr its"
    by blast
  from map_items_elems [OF m] have len: "length its = length xs"
    and el: "\<forall>j<length its. map_item newDate now feedConfig cat feedTitle (0 + j) (xs ! j) = Inr (its ! j)"
    by auto
  have "js_truthy (f_title it) \<and> js_truthy (f_link it) \<and> \<not> tagged (f_description it)
           \<and> f_category it = cat \<and> f_feedName it = cfg_label feedConfig" if "it \<in> set its" for it
  proof -
    from that obtain j where j: "j < length its" "its ! j = it" by (auto simp: in_set_conv_nth)
    with el have "map_item newDate now feedConfig cat feedTitle (0 + j) (xs ! j) = Inr it" by auto
    from map_item_fields [OF this] show ?thesis by simp
  qed
  with len ne show ?thesis by auto
qed

lemma fetchRSSFeed_null:
  "fetchRSSFeed newDate now feedConfig cat Rejected = None"
  "fetchRSSFeed newDate now feedConfig cat (Responded False status body) = None"
  "fetchRSSFeed newDate now feedConfig cat (Responded True status None) = None"
  "detect_shape data = Inr (JArr [], feedTitle) \<Longrightarrow>
     fetchRSSFeed newDate now feedConfig cat (Responded True status (Some data)) = None"
  by (simp_all add: fetchRSSFeed_def)

lemma title_string_cases:
  "is_string (text_of v (JStr no_title)) \<longleftrightarrow>
     is_string v \<or> is_string (js_or (js_or (js_opt_get v ''_text'') (js_opt_get v ''_cdata'')) (JStr no_title))"
  by (simp add: text_of_def)

text \<open>The five shapes of a response, and a response of none of them.\<close>

lemma detect_shape_examples:
  "detect_shape (JObj [(''status'', JStr ''ok''), (''items'', JArr [JObj []]),
                       (''feed'', JObj [(''title'', JStr ''T'')])])
     = Inr (JArr [JObj []], JStr ''T'')"
  "detect_shape (JArr [JObj []]) = Inr (JArr [JObj []], JStr [])"
  "detect_shape (JObj [(''rss'', JObj [(''channel'', JObj [(''title'', JStr ''T''), (''item'', JObj [])])])])
     = Inr (JArr [JObj []], JStr ''T'')"
  "detect_shape (JObj [(''feed'', JObj [(''name'', JStr ''T''), (''entry'', JArr [JObj []])])])
     = Inr (JArr [JObj []], JStr ''T'')"
  "detect_shape (JObj [(''items'', JArr [JObj []]), (''title'', JStr ''T'')])
     = Inr (JArr [JObj []], JStr ''T'')"
  "detect_shape (JObj [(''message'', JStr ''not a feed'')]) = Inr (JArr [], JStr [])"
  "detect_shape JNull = Inl TypeError"
  by (simp_all add: detect_shape_def js_opt_get_def js_or_def)

text \<open>
  C4. The title need not be a string. For the response \<open>[{"title": {"_text": 2024}}]\<close>
  the test \<open>typeof title === 'string'\<close> fails, \<open>title._text\<close> is truthy and is taken as
  it is: the item returned has the number 2024 as its title.
\<close>

theorem fetchRSSFeed_title_not_string:
  "fetchRSSFeed (\<lambda>v. Inr (Some 0)) (\<lambda>r. 1700000000000) (sample_config ''F'' ''tech'') (sample_category ''tech'')
     (Responded True 200 (Some (JArr [JObj [(''title'', JObj [(''_text'', JNum 2024)])]])))
   = Some [\<lparr>f_id = ''F-1700000000000-0'', f_title = JNum 2024, f_description = no_description,
            f_link = JStr ''#'', f_pubDate = Some 0, f_category = sample_category ''tech'',
            f_source = JStr ''F'', f_author = JStr ''F'', f_feedName = ''F''\<rparr>]
   \<and> is_string (JNum 2024) = False"
  by (simp add: fetchRSSFeed_def detect_shape_def map_item_def js_opt_get_def js_or_def
      text_of_def generateId_def show_nat.simps sample_config_def cfg_label_def cfg_title_js_def
      stripHtml_def trim_def no_description_def js_space_def Let_def)

section \<open>Properties of \<open>toggleSource\<close>\<close>

text \<open>
  C10. Toggling a name twice gives the set back; toggling it once flips the membership
  of that name and of no other.
\<close>

theorem toggleSource_involution:
  "toggleSource n (toggleSource n S) = S
   \<and> (n \<in> toggleSource n S) = (n \<notin> S)
   \<and> (\<forall>m. m \<noteq> n \<longrightarrow> (m \<in> toggleSource n S) = (m \<in> S))"
  by (auto simp: toggleSource_def)

theorem toggleSource_involution_witness:
  "toggleSource ''a'' (toggleSource ''a'' {''a'', ''b''}) = {''a'', ''b''}
   \<and> ''a'' \<notin> toggleSource ''a'' {''a'', ''b''}
   \<and> ''b'' \<in> toggleSource ''a'' {''a'', ''b''}"
  using toggleSource_involution [of "''a''" "{''a'', ''b''}"] by simp

end
